theory Spec2Isabelle
  imports Complex_Main "HOL-Library.AList" "HOL-Library.Word"
begin

section \<open>Python values handled by the mempool\<close>

text \<open>
  The pool of \<^verbatim>\<open>src/full_node/mempool.py\<close> is a Python object holding three
  plain dictionaries and one \<^verbatim>\<open>SortedDict\<close>. A Python \<^verbatim>\<open>dict\<close> keeps its keys
  unique and in insertion order, so it is modelled as an association list: storing under
  a key that is present replaces the value in place, storing under a new key appends,
  and \<^verbatim>\<open>del d[k]\<close> raises \<^verbatim>\<open>KeyError\<close> when the key is missing.
\<close>

datatype py_error = KeyError | IndexError

type_synonym bytes32 = "256 word"

type_synonym ('k, 'v) dict = "('k \<times> 'v) list"

text \<open>\<^verbatim>\<open>d[k] = v\<close>\<close>

definition dict_set :: "'k \<Rightarrow> 'v \<Rightarrow> ('k, 'v) dict \<Rightarrow> ('k, 'v) dict" where
  "dict_set k v d = AList.update k v d"

text \<open>\<^verbatim>\<open>del d[k]\<close>\<close>

definition dict_del :: "'k \<Rightarrow> ('k, 'v) dict \<Rightarrow> py_error + ('k, 'v) dict" where
  "dict_del k d = (case map_of d k of None \<Rightarrow> Inl KeyError | Some v \<Rightarrow> Inr (AList.delete k d))"

text \<open>
  \<^verbatim>\<open>for k in ks: del d[k]\<close>. When a deletion raises, the dictionary is left as the
  earlier deletions made it; that dictionary is returned with the error.
\<close>

fun del_each :: "'k list \<Rightarrow> ('k, 'v) dict \<Rightarrow> (py_error \<times> ('k, 'v) dict) + ('k, 'v) dict" where
  "del_each [] d = Inr d"
| "del_each (k # ks) d =
     (case dict_del k d of Inl e \<Rightarrow> Inl (e, d) | Inr d' \<Rightarrow> del_each ks d')"

text \<open>\<^verbatim>\<open>for k in ks: d[k] = v\<close>\<close>

fun set_each :: "'k list \<Rightarrow> 'v \<Rightarrow> ('k, 'v) dict \<Rightarrow> ('k, 'v) dict" where
  "set_each [] v d = d"
| "set_each (k # ks) v d = set_each ks v (dict_set k v d)"

text \<open>
  A \<^verbatim>\<open>SortedDict\<close> iterates its keys in ascending order: it is an association list
  kept sorted by key. Storing under a new key inserts at the sorted position;
  \<^verbatim>\<open>peekitem(index=0)\<close> returns the pair with the least key and raises
  \<^verbatim>\<open>IndexError\<close> on an empty dictionary.
\<close>

fun sd_set :: "'k::linorder \<Rightarrow> 'v \<Rightarrow> ('k, 'v) dict \<Rightarrow> ('k, 'v) dict" where
  "sd_set k v [] = [(k, v)]"
| "sd_set k v ((k', v') # ps) =
     (if k = k' then (k, v) # ps
      else if k < k' then (k, v) # (k', v') # ps
      else (k', v') # sd_set k v ps)"

definition peekitem0 :: "('k, 'v) dict \<Rightarrow> py_error + ('k \<times> 'v)" where
  "peekitem0 sd = (case sd of [] \<Rightarrow> Inl IndexError | p # ps \<Rightarrow> Inr p)"

text \<open>\<^verbatim>\<open>list(d.values())[0]\<close>\<close>

definition first_value :: "('k, 'v) dict \<Rightarrow> py_error + 'v" where
  "first_value d = (case d of [] \<Rightarrow> Inl IndexError | p # ps \<Rightarrow> Inr (snd p))"

section \<open>Coins, items and the pool\<close>

text \<open>
  Modelled from the spec: the classes \<^verbatim>\<open>Coin\<close>, \<^verbatim>\<open>MempoolItem\<close> and \<^verbatim>\<open>Header\<close>
  (\<^verbatim>\<open>src/types/coin.py\<close>, \<^verbatim>\<open>src/types/mempool_item.py\<close>, \<^verbatim>\<open>src/types/header.py\<close>) are
  not part of the sources verified here. The types below carry what \<^verbatim>\<open>mempool.py\<close> reads
  of them, which is the spec's pool entry: of a \<^verbatim>\<open>Coin\<close> its \<^verbatim>\<open>name()\<close>; of a
  \<^verbatim>\<open>MempoolItem\<close> its \<^verbatim>\<open>name\<close> (the id), its \<^verbatim>\<open>fee_per_cost\<close> and the two coin
  lists of its spend bundle, \<^verbatim>\<open>spend_bundle.removals()\<close> (the consumed coins) and
  \<^verbatim>\<open>spend_bundle.additions()\<close> (the produced coins). The header is never read by the
  pool and is carried as a number. The fee rate is a Python float that the pool only
  compares and uses as a key; it is modelled by its rational value, so that the order and
  the equality of keys are those of the floats (a NaN, which no ordered dictionary can
  hold as a key, is outside the model).
\<close>

datatype Coin = Coin (coin_name: bytes32)

record MempoolItem =
  name :: bytes32
  fee_per_cost :: rat
  bundle_removals :: "Coin list"
  bundle_additions :: "Coin list"

record Mempool =
  header :: nat
  spends :: "(bytes32, MempoolItem) dict"
  sorted_spends :: "(rat, (bytes32, MempoolItem) dict) dict"
  additions :: "(bytes32, MempoolItem) dict"
  removals :: "(bytes32, MempoolItem) dict"
  min_fee :: "64 word"
  pool_size :: int

text \<open>
  A method that raises leaves the pool as the statements before the raise made it. The
  outcome of a mutating method is therefore either the error together with the pool at
  the moment of the raise, or the pool after the method has returned.
\<close>

type_synonym outcome = "(py_error \<times> Mempool) + Mempool"

definition create :: "nat \<Rightarrow> int \<Rightarrow> Mempool" where
  "create tip sz =
     \<lparr>header = tip, spends = [], sorted_spends = [], additions = [], removals = [],
      min_fee = 0, pool_size = sz\<rparr>"

definition at_full_capacity :: "Mempool \<Rightarrow> bool" where
  "at_full_capacity m = (int (length (spends m)) \<ge> pool_size m)"

definition get_min_fee_rate :: "Mempool \<Rightarrow> py_error + rat" where
  "get_min_fee_rate m =
     (if at_full_capacity m then
        (case peekitem0 (sorted_spends m) of
           Inl e \<Rightarrow> Inl e
         | Inr (fpc, val) \<Rightarrow> Inr fpc)
      else Inr 0)"

definition remove_spend :: "Mempool \<Rightarrow> MempoolItem \<Rightarrow> outcome" where
  "remove_spend m item =
     (case del_each (map coin_name (bundle_removals item)) (removals m) of
        Inl (e, r) \<Rightarrow> Inl (e, m\<lparr>removals := r\<rparr>)
      | Inr r \<Rightarrow>
     (let m1 = m\<lparr>removals := r\<rparr> in
      case del_each (map coin_name (bundle_additions item)) (additions m1) of
        Inl (e, a) \<Rightarrow> Inl (e, m1\<lparr>additions := a\<rparr>)
      | Inr a \<Rightarrow>
     (let m2 = m1\<lparr>additions := a\<rparr> in
      case dict_del (name item) (spends m2) of
        Inl e \<Rightarrow> Inl (e, m2)
      | Inr s \<Rightarrow>
     (let m3 = m2\<lparr>spends := s\<rparr> in
      case map_of (sorted_spends m3) (fee_per_cost item) of
        None \<Rightarrow> Inl (KeyError, m3)
      | Some bucket \<Rightarrow>
     (case dict_del (name item) bucket of
        Inl e \<Rightarrow> Inl (e, m3)
      | Inr dic \<Rightarrow>
     (let m4 = m3\<lparr>sorted_spends := AList.update (fee_per_cost item) dic (sorted_spends m3)\<rparr> in
      if length dic = 0
      then Inr (m4\<lparr>sorted_spends := AList.delete (fee_per_cost item) (sorted_spends m4)\<rparr>)
      else Inr m4))))))"

text \<open>Lines 66 to 78 of \<^verbatim>\<open>add_to_pool\<close>: the four insertions, which cannot raise.\<close>

definition insert_item ::
    "Mempool \<Rightarrow> MempoolItem \<Rightarrow> Coin list \<Rightarrow> (bytes32, Coin) dict \<Rightarrow> Mempool" where
  "insert_item m item adds removals_dic =
     (let m1 = m\<lparr>spends := dict_set (name item) item (spends m)\<rparr>;
          ss = (case map_of (sorted_spends m1) (fee_per_cost item) of
                  Some bucket \<Rightarrow>
                    AList.update (fee_per_cost item) (dict_set (name item) item bucket)
                      (sorted_spends m1)
                | None \<Rightarrow>
                    AList.update (fee_per_cost item) (dict_set (name item) item [])
                      (sd_set (fee_per_cost item) [] (sorted_spends m1)));
          m2 = m1\<lparr>sorted_spends := ss\<rparr>;
          m3 = m2\<lparr>additions := set_each (map coin_name adds) item (additions m2)\<rparr>
      in m3\<lparr>removals := set_each (map fst removals_dic) item (removals m3)\<rparr>)"

definition add_to_pool ::
    "Mempool \<Rightarrow> MempoolItem \<Rightarrow> Coin list \<Rightarrow> (bytes32, Coin) dict \<Rightarrow> outcome" where
  "add_to_pool m item adds removals_dic =
     (if at_full_capacity m then
        (case peekitem0 (sorted_spends m) of
           Inl e \<Rightarrow> Inl (e, m)
         | Inr (fpc, val) \<Rightarrow>
        (case first_value val of
           Inl e \<Rightarrow> Inl (e, m)
         | Inr to_remove \<Rightarrow>
        (case remove_spend m to_remove of
           Inl em \<Rightarrow> Inl em
         | Inr m' \<Rightarrow> Inr (insert_item m' item adds removals_dic))))
      else Inr (insert_item m item adds removals_dic))"

section \<open>Sequences of calls\<close>

datatype call =
    Admit MempoolItem "Coin list" "(bytes32, Coin) dict"
  | Remove MempoolItem

fun exec :: "Mempool \<Rightarrow> call \<Rightarrow> outcome" where
  "exec m (Admit item adds removals_dic) = add_to_pool m item adds removals_dic"
| "exec m (Remove item) = remove_spend m item"

text \<open>The pool a caller holds once the call is over, whether it returned or raised.\<close>

definition pool_after :: "outcome \<Rightarrow> Mempool" where
  "pool_after r = (case r of Inl (e, m) \<Rightarrow> m | Inr m \<Rightarrow> m)"

fun run :: "Mempool \<Rightarrow> call list \<Rightarrow> Mempool" where
  "run m [] = m"
| "run m (c # cs) = run (pool_after (exec m c)) cs"

section \<open>The calling contract and the index properties\<close>

text \<open>
  The contract of the two mutating methods as the specification words it: an admitted
  item carries an id that is not in \<open>spends\<close>, its coin collections are sets (no coin
  twice) and the coins handed to \<^verbatim>\<open>add_to_pool\<close> are the item's own; a removed item is
  the one stored in \<open>spends\<close> under its id.
\<close>

fun contract :: "Mempool \<Rightarrow> call \<Rightarrow> bool" where
  "contract m (Admit item adds removals_dic) =
     (name item \<notin> fst ` set (spends m) \<and>
      distinct (map coin_name (bundle_removals item)) \<and>
      distinct (map coin_name (bundle_additions item)) \<and>
      set (map coin_name adds) = set (map coin_name (bundle_additions item)) \<and>
      set (map fst removals_dic) = set (map coin_name (bundle_removals item)))"
| "contract m (Remove item) = (map_of (spends m) (name item) = Some item)"

text \<open>
  The contract together with the caller's conflict resolution: no coin of the admitted
  item is a key of \<open>removals\<close>, respectively \<open>additions\<close>, when the call is made.
\<close>

fun conflict_free_contract :: "Mempool \<Rightarrow> call \<Rightarrow> bool" where
  "conflict_free_contract m (Admit item adds removals_dic) =
     (contract m (Admit item adds removals_dic) \<and>
      (\<forall>c \<in> set (bundle_removals item). coin_name c \<notin> fst ` set (removals m)) \<and>
      (\<forall>c \<in> set (bundle_additions item). coin_name c \<notin> fst ` set (additions m)))"
| "conflict_free_contract m (Remove item) = contract m (Remove item)"

text \<open>Every call of the sequence meets the contract \<open>P\<close> in the pool it is made on.\<close>

fun obeys :: "(Mempool \<Rightarrow> call \<Rightarrow> bool) \<Rightarrow> Mempool \<Rightarrow> call list \<Rightarrow> bool" where
  "obeys P m [] = True"
| "obeys P m (c # cs) = (P m c \<and> obeys P (pool_after (exec m c)) cs)"



definition no_empty_buckets :: "Mempool \<Rightarrow> bool" where
  "no_empty_buckets m \<longleftrightarrow> (\<forall>(f, b) \<in> set (sorted_spends m). b \<noteq> [])"

text \<open>
  What \<^verbatim>\<open>self.sorted_spends[f][k]\<close> holds: the entry stored under the id \<open>k\<close> in the bucket
  of the fee rate \<open>f\<close>, if there is such a bucket and it has that id.
\<close>

definition bucket_entry :: "Mempool \<Rightarrow> rat \<Rightarrow> bytes32 \<Rightarrow> MempoolItem option" where
  "bucket_entry m f k = (case map_of (sorted_spends m) f of None \<Rightarrow> None | Some b \<Rightarrow> map_of b k)"

text \<open>
  The invariant that ties \<open>spends\<close> to \<open>sorted_spends\<close>: dictionary keys are unique, the
  sorted dictionary is in ascending key order, every stored item sits under its own id
  and in the bucket of its own fee rate, and every bucket is non-empty and holds stored
  items of that fee rate only.
\<close>

definition fee_index_ok :: "Mempool \<Rightarrow> bool" where
  "fee_index_ok m \<longleftrightarrow>
     distinct (map fst (spends m)) \<and>
     sorted_wrt (<) (map fst (sorted_spends m)) \<and>
     (\<forall>k it. map_of (spends m) k = Some it \<longrightarrow>
        name it = k \<and>
        (\<exists>b. map_of (sorted_spends m) (fee_per_cost it) = Some b \<and> map_of b k = Some it)) \<and>
     (\<forall>f b. map_of (sorted_spends m) f = Some b \<longrightarrow>
        b \<noteq> [] \<and> distinct (map fst b) \<and>
        (\<forall>k it. map_of b k = Some it \<longrightarrow> fee_per_cost it = f \<and> map_of (spends m) k = Some it))"

text \<open>
  The invariant that ties the two coin dictionaries to \<open>spends\<close>: a coin maps to a stored
  item that lists it, and each stored item finds every one of its coins mapped to itself.
\<close>

definition coin_index_ok :: "Mempool \<Rightarrow> bool" where
  "coin_index_ok m \<longleftrightarrow>
     (\<forall>c it. map_of (removals m) c = Some it \<longrightarrow>
        map_of (spends m) (name it) = Some it \<and> c \<in> coin_name ` set (bundle_removals it)) \<and>
     (\<forall>c it. map_of (additions m) c = Some it \<longrightarrow>
        map_of (spends m) (name it) = Some it \<and> c \<in> coin_name ` set (bundle_additions it)) \<and>
     (\<forall>k it. map_of (spends m) k = Some it \<longrightarrow>
        distinct (map coin_name (bundle_removals it)) \<and>
        distinct (map coin_name (bundle_additions it)) \<and>
        (\<forall>c \<in> set (bundle_removals it). map_of (removals m) (coin_name c) = Some it) \<and>
        (\<forall>c \<in> set (bundle_additions it). map_of (additions m) (coin_name c) = Some it))"

section \<open>Sample entries\<close>

text \<open>
  Concrete entries at which the theorems below are instantiated: three entries with
  separate coins, an entry that reuses the id of \<open>entry_X\<close>, two entries of equal fee rate
  that spend the same coin, an entry of fee rate 7, and an entry of fee rate 7 that spends
  the coin of \<open>entry_P\<close>.
\<close>

definition entry_X :: MempoolItem where
  "entry_X = \<lparr>name = 1, fee_per_cost = 5, bundle_removals = [Coin 10], bundle_additions = [Coin 20]\<rparr>"

definition entry_Y :: MempoolItem where
  "entry_Y = \<lparr>name = 2, fee_per_cost = 3, bundle_removals = [Coin 11], bundle_additions = []\<rparr>"

definition entry_Z :: MempoolItem where
  "entry_Z = \<lparr>name = 3, fee_per_cost = 10, bundle_removals = [Coin 12], bundle_additions = []\<rparr>"

definition entry_V :: MempoolItem where
  "entry_V = \<lparr>name = 1, fee_per_cost = 3, bundle_removals = [], bundle_additions = []\<rparr>"

definition entry_P :: MempoolItem where
  "entry_P = \<lparr>name = 4, fee_per_cost = 1, bundle_removals = [Coin 30], bundle_additions = []\<rparr>"

definition entry_Q :: MempoolItem where
  "entry_Q = \<lparr>name = 5, fee_per_cost = 1, bundle_removals = [Coin 30], bundle_additions = []\<rparr>"

definition entry_S :: MempoolItem where
  "entry_S = \<lparr>name = 6, fee_per_cost = 7, bundle_removals = [Coin 40], bundle_additions = [Coin 41]\<rparr>"

definition entry_T :: MempoolItem where
  "entry_T = \<lparr>name = 7, fee_per_cost = 7, bundle_removals = [Coin 30], bundle_additions = []\<rparr>"

section \<open>Dictionaries\<close>

lemmas pool_eval = create_def at_full_capacity_def add_to_pool_def insert_item_def
  remove_spend_def get_min_fee_rate_def dict_set_def dict_del_def peekitem0_def first_value_def
  pool_after_def Let_def

lemmas entry_defs = entry_X_def entry_Y_def entry_Z_def entry_V_def entry_P_def entry_Q_def
  entry_S_def entry_T_def

lemma map_of_dict_set: "map_of (dict_set k v d) = (map_of d)(k \<mapsto> v)"
  by (simp add: dict_set_def update_conv')

lemma keys_dict_set: "fst ` set (dict_set k v d) = insert k (fst ` set d)"
  by (simp add: dict_set_def dom_update)

lemma distinct_dict_set: "distinct (map fst d) \<Longrightarrow> distinct (map fst (dict_set k v d))"
  by (simp add: dict_set_def distinct_update)

lemma length_dict_set: "length (dict_set k v d) \<le> Suc (length d)"
  unfolding dict_set_def by (induction d) auto

lemma delete_filter: "AList.delete k d = filter (\<lambda>p. fst p \<noteq> k) d"
  by (induction d) auto

lemma keys_map_of: "k \<in> fst ` set d \<longleftrightarrow> (\<exists>v. map_of d k = Some v)"
  using map_of_eq_None_iff[of d k] by auto

lemma dict_del_Inr_iff:
  "dict_del k d = Inr d' \<longleftrightarrow> k \<in> fst ` set d \<and> d' = AList.delete k d"
  by (auto simp: dict_del_def keys_map_of split: option.splits)

lemma dict_del_Inl_iff:
  "dict_del k d = Inl e \<longleftrightarrow> k \<notin> fst ` set d \<and> e = KeyError"
  by (auto simp: dict_del_def keys_map_of split: option.splits)

lemma length_delete_less:
  "k \<in> fst ` set d \<Longrightarrow> length (AList.delete k d) < length d"
proof (induction d)
  case Nil
  then show ?case by simp
next
  case (Cons p d)
  have "length (AList.delete k d) \<le> length d" by (rule length_delete_le)
  then show ?case using Cons by (cases "fst p = k") (auto simp: delete_filter[symmetric])
qed

lemma del_each_Inr:
  "distinct ks \<Longrightarrow> set ks \<subseteq> fst ` set d \<Longrightarrow>
   del_each ks d = Inr (filter (\<lambda>p. fst p \<notin> set ks) d)"
proof (induction ks arbitrary: d)
  case Nil
  then show ?case by simp
next
  case (Cons k ks)
  have k: "k \<in> fst ` set d" using Cons.prems by simp
  have sub: "set ks \<subseteq> fst ` set (AList.delete k d)"
    using Cons.prems by (force simp: delete_filter)
  have "del_each (k # ks) d = del_each ks (AList.delete k d)"
    using k by (simp add: dict_del_Inr_iff[THEN iffD2])
  also have "\<dots> = Inr (filter (\<lambda>p. fst p \<notin> set ks) (AList.delete k d))"
    using Cons.IH[OF _ sub] Cons.prems by simp
  also have "filter (\<lambda>p. fst p \<notin> set ks) (AList.delete k d) = filter (\<lambda>p. fst p \<notin> set (k # ks)) d"
    by (auto simp: delete_filter intro: filter_cong)
  finally show ?case .
qed

lemma del_each_Inl:
  "del_each ks d = Inl (e, d') \<Longrightarrow> e = KeyError \<and> set d' \<subseteq> set d"
proof (induction ks arbitrary: d)
  case Nil
  then show ?case by simp
next
  case (Cons k ks)
  show ?case
  proof (cases "dict_del k d")
    case (Inl a)
    then have "a = KeyError" by (simp add: dict_del_Inl_iff)
    then show ?thesis using Cons.prems Inl by auto
  next
    case (Inr d1)
    then have "d1 = AList.delete k d" by (simp add: dict_del_Inr_iff)
    moreover have "e = KeyError \<and> set d' \<subseteq> set d1"
      using Cons.IH[of d1] Cons.prems Inr by simp
    ultimately show ?thesis by (auto simp: delete_filter)
  qed
qed

lemma del_each_Inr_sub:
  "del_each ks d = Inr d' \<Longrightarrow> d' = filter (\<lambda>p. fst p \<notin> set ks) d"
proof (induction ks arbitrary: d)
  case Nil
  then show ?case by simp
next
  case (Cons k ks)
  show ?case
  proof (cases "dict_del k d")
    case (Inl a)
    then show ?thesis using Cons.prems by simp
  next
    case (Inr d1)
    then have d1: "d1 = AList.delete k d" by (simp add: dict_del_Inr_iff)
    have "d' = filter (\<lambda>p. fst p \<notin> set ks) d1"
      using Cons.IH[of d1] Cons.prems Inr by simp
    then show ?thesis unfolding d1 by (auto simp: delete_filter intro: filter_cong)
  qed
qed

lemma map_of_set_each:
  "map_of (set_each ks v d) = (\<lambda>k. if k \<in> set ks then Some v else map_of d k)"
  by (induction ks arbitrary: d) (auto simp: map_of_dict_set fun_eq_iff)

lemma keys_set_each: "fst ` set (set_each ks v d) = set ks \<union> fst ` set d"
  by (induction ks arbitrary: d) (auto simp: keys_dict_set)

lemma distinct_set_each: "distinct (map fst d) \<Longrightarrow> distinct (map fst (set_each ks v d))"
  by (induction ks arbitrary: d) (auto simp: distinct_dict_set)

lemma map_of_sd_set: "map_of (sd_set k v sd) = (map_of sd)(k \<mapsto> v)"
  by (induction sd) (auto simp: fun_eq_iff)

lemma keys_sd_set: "fst ` set (sd_set k v sd) = insert k (fst ` set sd)"
  using arg_cong[OF map_of_sd_set[of k v sd], of dom] by (simp add: dom_map_of_conv_image_fst)

lemma sorted_sd_set:
  "sorted_wrt (<) (map fst sd) \<Longrightarrow> sorted_wrt (<) (map fst (sd_set k v sd))"
proof (induction sd)
  case Nil
  then show ?case by simp
next
  case (Cons p sd)
  have "\<forall>x \<in> fst ` set (sd_set k v sd). fst p < x" if "fst p < k"
    using Cons.prems that by (auto simp: keys_sd_set)
  then show ?case using Cons by (cases p) (auto simp: keys_sd_set)
qed

lemma map_of_filter_keys:
  "map_of (filter (\<lambda>p. P (fst p)) d) k = (if P k then map_of d k else None)"
  by (induction d) auto

section \<open>Outcomes of \<open>remove_spend\<close>\<close>

lemma dict_del_present: "k \<in> fst ` set d \<Longrightarrow> dict_del k d = Inr (AList.delete k d)"
  by (simp add: dict_del_Inr_iff)

lemma dict_del_absent: "k \<notin> fst ` set d \<Longrightarrow> dict_del k d = Inl KeyError"
  by (simp add: dict_del_Inl_iff)

lemma remove_spend_raise_removals:
  assumes "del_each (map coin_name (bundle_removals it)) (removals m) = Inl (e, r)"
  shows "remove_spend m it = Inl (e, m\<lparr>removals := r\<rparr>)"
  using assms by (simp add: remove_spend_def)

lemma remove_spend_raise_additions:
  assumes "del_each (map coin_name (bundle_removals it)) (removals m) = Inr r"
      and "del_each (map coin_name (bundle_additions it)) (additions m) = Inl (e, a)"
  shows "remove_spend m it = Inl (e, m\<lparr>removals := r, additions := a\<rparr>)"
  using assms by (simp add: remove_spend_def)

lemma remove_spend_raise_spends:
  assumes "del_each (map coin_name (bundle_removals it)) (removals m) = Inr r"
      and "del_each (map coin_name (bundle_additions it)) (additions m) = Inr a"
      and "name it \<notin> fst ` set (spends m)"
  shows "remove_spend m it = Inl (KeyError, m\<lparr>removals := r, additions := a\<rparr>)"
  using assms by (simp add: remove_spend_def dict_del_absent)

lemma remove_spend_raise_bucket:
  assumes "del_each (map coin_name (bundle_removals it)) (removals m) = Inr r"
      and "del_each (map coin_name (bundle_additions it)) (additions m) = Inr a"
      and "name it \<in> fst ` set (spends m)"
      and "\<forall>b. map_of (sorted_spends m) (fee_per_cost it) = Some b \<longrightarrow> name it \<notin> fst ` set b"
  shows "remove_spend m it =
           Inl (KeyError, m\<lparr>removals := r, additions := a,
                            spends := AList.delete (name it) (spends m)\<rparr>)"
proof (cases "map_of (sorted_spends m) (fee_per_cost it)")
  case None
  then show ?thesis using assms(1-3) by (simp add: remove_spend_def dict_del_present)
next
  case (Some b)
  then have "dict_del (name it) b = Inl KeyError" using assms(4) by (simp add: dict_del_absent)
  then show ?thesis using assms(1-3) Some by (simp add: remove_spend_def dict_del_present)
qed

lemma remove_spend_return:
  assumes "del_each (map coin_name (bundle_removals it)) (removals m) = Inr r"
      and "del_each (map coin_name (bundle_additions it)) (additions m) = Inr a"
      and "name it \<in> fst ` set (spends m)"
      and "map_of (sorted_spends m) (fee_per_cost it) = Some b"
      and "name it \<in> fst ` set b"
  shows "remove_spend m it =
           Inr (m\<lparr>removals := r, additions := a,
                   spends := AList.delete (name it) (spends m),
                   sorted_spends :=
                     (if AList.delete (name it) b = []
                      then AList.delete (fee_per_cost it) (sorted_spends m)
                      else AList.update (fee_per_cost it) (AList.delete (name it) b)
                             (sorted_spends m))\<rparr>)"
  using assms by (simp add: remove_spend_def dict_del_present delete_update_same)

lemma remove_spend_Inr_D:
  assumes "remove_spend m it = Inr m'"
  shows "name it \<in> fst ` set (spends m)"
    and "header m' = header m" and "pool_size m' = pool_size m" and "min_fee m' = min_fee m"
    and "removals m' = filter (\<lambda>p. fst p \<notin> coin_name ` set (bundle_removals it)) (removals m)"
    and "additions m' = filter (\<lambda>p. fst p \<notin> coin_name ` set (bundle_additions it)) (additions m)"
    and "spends m' = AList.delete (name it) (spends m)"
    and "\<exists>b. map_of (sorted_spends m) (fee_per_cost it) = Some b \<and> name it \<in> fst ` set b \<and>
              sorted_spends m' =
                (if AList.delete (name it) b = []
                 then AList.delete (fee_per_cost it) (sorted_spends m)
                 else AList.update (fee_per_cost it) (AList.delete (name it) b) (sorted_spends m))"
proof -
  obtain r where r: "del_each (map coin_name (bundle_removals it)) (removals m) = Inr r"
    using assms remove_spend_raise_removals[where it=it and m=m]
    by (cases "del_each (map coin_name (bundle_removals it)) (removals m)") auto
  obtain a where a: "del_each (map coin_name (bundle_additions it)) (additions m) = Inr a"
    using assms remove_spend_raise_additions[OF r]
    by (cases "del_each (map coin_name (bundle_additions it)) (additions m)") auto
  show n: "name it \<in> fst ` set (spends m)"
    using assms remove_spend_raise_spends[OF r a] by auto
  obtain b where b: "map_of (sorted_spends m) (fee_per_cost it) = Some b" "name it \<in> fst ` set b"
    using assms remove_spend_raise_bucket[OF r a n] by auto
  note eq = remove_spend_return[OF r a n b]
  have m': "m' = m\<lparr>removals := r, additions := a,
                   spends := AList.delete (name it) (spends m),
                   sorted_spends :=
                     (if AList.delete (name it) b = []
                      then AList.delete (fee_per_cost it) (sorted_spends m)
                      else AList.update (fee_per_cost it) (AList.delete (name it) b)
                             (sorted_spends m))\<rparr>"
    using assms eq by simp
  show "header m' = header m" "pool_size m' = pool_size m" "min_fee m' = min_fee m"
    "spends m' = AList.delete (name it) (spends m)"
    by (simp_all add: m')
  show "removals m' = filter (\<lambda>p. fst p \<notin> coin_name ` set (bundle_removals it)) (removals m)"
    using del_each_Inr_sub[OF r] by (simp add: m')
  show "additions m' = filter (\<lambda>p. fst p \<notin> coin_name ` set (bundle_additions it)) (additions m)"
    using del_each_Inr_sub[OF a] by (simp add: m')
  show "\<exists>b. map_of (sorted_spends m) (fee_per_cost it) = Some b \<and> name it \<in> fst ` set b \<and>
              sorted_spends m' =
                (if AList.delete (name it) b = []
                 then AList.delete (fee_per_cost it) (sorted_spends m)
                 else AList.update (fee_per_cost it) (AList.delete (name it) b) (sorted_spends m))"
    using b by (simp add: m')
qed

lemma remove_spend_Inl_D:
  assumes "remove_spend m it = Inl (e, m')"
  shows "e = KeyError"
    and "header m' = header m" and "pool_size m' = pool_size m" and "min_fee m' = min_fee m"
    and "set (removals m') \<subseteq> set (removals m)" and "set (additions m') \<subseteq> set (additions m)"
    and "sorted_spends m' = sorted_spends m"
    and "spends m' = spends m \<or>
         name it \<in> fst ` set (spends m) \<and> spends m' = AList.delete (name it) (spends m) \<and>
         (\<forall>b. map_of (sorted_spends m) (fee_per_cost it) = Some b \<longrightarrow> name it \<notin> fst ` set b)"
proof -
  let ?goal = "e = KeyError \<and> header m' = header m \<and> pool_size m' = pool_size m \<and>
     min_fee m' = min_fee m \<and> set (removals m') \<subseteq> set (removals m) \<and>
     set (additions m') \<subseteq> set (additions m) \<and> sorted_spends m' = sorted_spends m \<and>
     (spends m' = spends m \<or>
         name it \<in> fst ` set (spends m) \<and> spends m' = AList.delete (name it) (spends m) \<and>
         (\<forall>b. map_of (sorted_spends m) (fee_per_cost it) = Some b \<longrightarrow> name it \<notin> fst ` set b))"
  have ?goal
  proof (cases "del_each (map coin_name (bundle_removals it)) (removals m)")
    case (Inl p)
    obtain e1 r where p: "p = (e1, r)" by (cases p)
    from remove_spend_raise_removals[OF Inl[unfolded p]] assms del_each_Inl[OF Inl[unfolded p]]
    show ?thesis by auto
  next
    case (Inr r)
    have rsub: "set r \<subseteq> set (removals m)" using del_each_Inr_sub[OF Inr] by auto
    show ?thesis
    proof (cases "del_each (map coin_name (bundle_additions it)) (additions m)")
      case (Inl p)
      obtain e1 a where p: "p = (e1, a)" by (cases p)
      from remove_spend_raise_additions[OF Inr Inl[unfolded p]] assms
        del_each_Inl[OF Inl[unfolded p]] rsub
      show ?thesis by auto
    next
      case a: (Inr a)
      have asub: "set a \<subseteq> set (additions m)" using del_each_Inr_sub[OF a] by auto
      show ?thesis
      proof (cases "name it \<in> fst ` set (spends m)")
        case False
        from remove_spend_raise_spends[OF Inr a False] assms rsub asub show ?thesis by auto
      next
        case True
        show ?thesis
        proof (cases "\<forall>b. map_of (sorted_spends m) (fee_per_cost it) = Some b \<longrightarrow> name it \<notin> fst ` set b")
          case all: True
          from remove_spend_raise_bucket[OF Inr a True all] assms rsub asub True all
          show ?thesis by auto
        next
          case False
          then obtain b where "map_of (sorted_spends m) (fee_per_cost it) = Some b" "name it \<in> fst ` set b"
            by auto
          from remove_spend_return[OF Inr a True this] assms show ?thesis by simp
        qed
      qed
    qed
  qed
  then show "e = KeyError"
    and "header m' = header m" and "pool_size m' = pool_size m" and "min_fee m' = min_fee m"
    and "set (removals m') \<subseteq> set (removals m)" and "set (additions m') \<subseteq> set (additions m)"
    and "sorted_spends m' = sorted_spends m"
    and "spends m' = spends m \<or>
         name it \<in> fst ` set (spends m) \<and> spends m' = AList.delete (name it) (spends m) \<and>
         (\<forall>b. map_of (sorted_spends m) (fee_per_cost it) = Some b \<longrightarrow> name it \<notin> fst ` set b)"
    by simp_all
qed

lemma remove_spend_returns:
  assumes "distinct (map coin_name (bundle_removals it))"
      and "coin_name ` set (bundle_removals it) \<subseteq> fst ` set (removals m)"
      and "distinct (map coin_name (bundle_additions it))"
      and "coin_name ` set (bundle_additions it) \<subseteq> fst ` set (additions m)"
      and "name it \<in> fst ` set (spends m)"
      and "map_of (sorted_spends m) (fee_per_cost it) = Some b"
      and "name it \<in> fst ` set b"
  shows "\<exists>m'. remove_spend m it = Inr m'"
proof -
  have r: "del_each (map coin_name (bundle_removals it)) (removals m) =
        Inr (filter (\<lambda>p. fst p \<notin> set (map coin_name (bundle_removals it))) (removals m))"
    using assms(1,2) by (intro del_each_Inr) auto
  have a: "del_each (map coin_name (bundle_additions it)) (additions m) =
        Inr (filter (\<lambda>p. fst p \<notin> set (map coin_name (bundle_additions it))) (additions m))"
    using assms(3,4) by (intro del_each_Inr) auto
  show ?thesis using remove_spend_return[OF r a assms(5,6,7)] by blast
qed

section \<open>Outcomes of \<open>add_to_pool\<close>\<close>

lemma insert_item_simps:
  "header (insert_item m it a rd) = header m"
  "pool_size (insert_item m it a rd) = pool_size m"
  "min_fee (insert_item m it a rd) = min_fee m"
  "spends (insert_item m it a rd) = dict_set (name it) it (spends m)"
  "additions (insert_item m it a rd) = set_each (map coin_name a) it (additions m)"
  "removals (insert_item m it a rd) = set_each (map fst rd) it (removals m)"
  "sorted_spends (insert_item m it a rd) =
     (case map_of (sorted_spends m) (fee_per_cost it) of
        Some b \<Rightarrow> AList.update (fee_per_cost it) (dict_set (name it) it b) (sorted_spends m)
      | None \<Rightarrow> AList.update (fee_per_cost it) (dict_set (name it) it [])
                  (sd_set (fee_per_cost it) [] (sorted_spends m)))"
  by (simp_all add: insert_item_def Let_def split: option.splits)

lemma add_to_pool_not_full:
  "\<not> at_full_capacity m \<Longrightarrow> add_to_pool m it a rd = Inr (insert_item m it a rd)"
  by (simp add: add_to_pool_def)

lemma add_to_pool_no_bucket:
  "at_full_capacity m \<Longrightarrow> sorted_spends m = [] \<Longrightarrow> add_to_pool m it a rd = Inl (IndexError, m)"
  by (simp add: add_to_pool_def peekitem0_def)

lemma add_to_pool_empty_bucket:
  "at_full_capacity m \<Longrightarrow> sorted_spends m = (f, []) # sd \<Longrightarrow>
   add_to_pool m it a rd = Inl (IndexError, m)"
  by (simp add: add_to_pool_def peekitem0_def first_value_def)

lemma add_to_pool_evict:
  "at_full_capacity m \<Longrightarrow> sorted_spends m = (f, (k, v) # b) # sd \<Longrightarrow>
   add_to_pool m it a rd =
     (case remove_spend m v of Inl em \<Rightarrow> Inl em | Inr m' \<Rightarrow> Inr (insert_item m' it a rd))"
  by (simp add: add_to_pool_def peekitem0_def first_value_def)

lemma sorted_spends_shape:
  obtains "sorted_spends m = []"
  | f sd where "sorted_spends m = (f, []) # sd"
  | f k v b sd where "sorted_spends m = (f, (k, v) # b) # sd"
proof (cases "sorted_spends m")
  case Nil
  then show ?thesis using that by simp
next
  case (Cons p sd)
  obtain f b where p: "p = (f, b)" by (cases p)
  show ?thesis
  proof (cases b)
    case Nil
    then show ?thesis using that(2) Cons p by simp
  next
    case (Cons q b')
    then show ?thesis using that(3)[of f "fst q" "snd q" b' sd] \<open>sorted_spends m = p # sd\<close> p by simp
  qed
qed

lemma remove_spend_capacity:
  "pool_size (pool_after (remove_spend m it)) = pool_size m \<and>
   length (spends (pool_after (remove_spend m it))) \<le> length (spends m)"
proof (cases "remove_spend m it")
  case (Inl p)
  obtain e m' where p: "p = (e, m')" by (cases p)
  from remove_spend_Inl_D(3,8)[OF Inl[unfolded p]] show ?thesis
    using length_delete_le[of "name it" "spends m"] by (auto simp: pool_after_def Inl p)
next
  case (Inr m')
  from remove_spend_Inr_D(3,7)[OF Inr] show ?thesis
    using length_delete_le[of "name it" "spends m"] by (auto simp: pool_after_def Inr)
qed

lemma remove_spend_shrinks:
  "remove_spend m it = Inr m' \<Longrightarrow> length (spends m') < length (spends m)"
  using remove_spend_Inr_D(1,7)[of m it m'] length_delete_less[of "name it" "spends m"] by simp

lemma capacity_step:
  assumes "pool_size m = int c" and "length (spends m) \<le> c"
  shows "pool_size (pool_after (exec m cl)) = int c \<and>
         length (spends (pool_after (exec m cl))) \<le> c"
proof (cases cl)
  case (Remove it)
  then show ?thesis using remove_spend_capacity[of m it] assms by simp
next
  case (Admit it a rd)
  show ?thesis
  proof (cases "at_full_capacity m")
    case False
    then have "length (spends m) < c" using assms by (simp add: at_full_capacity_def)
    then show ?thesis
      using assms length_dict_set[of "name it" it "spends m"]
      by (simp add: Admit add_to_pool_not_full[OF False] pool_after_def insert_item_simps)
  next
    case True
    show ?thesis
    proof (cases m rule: sorted_spends_shape)
      case 1
      then show ?thesis using assms by (simp add: Admit add_to_pool_no_bucket[OF True] pool_after_def)
    next
      case (2 f sd)
      then show ?thesis using assms by (simp add: Admit add_to_pool_empty_bucket[OF True] pool_after_def)
    next
      case (3 f k v b sd)
      note ev = add_to_pool_evict[OF True 3, of it a rd]
      show ?thesis
      proof (cases "remove_spend m v")
        case (Inl p)
        then show ?thesis using remove_spend_capacity[of m v] assms
          by (simp add: Admit ev pool_after_def split: prod.splits)
      next
        case (Inr m')
        have "length (spends m') < length (spends m)" by (rule remove_spend_shrinks[OF Inr])
        moreover have "pool_size m' = pool_size m" by (rule remove_spend_Inr_D(3)[OF Inr])
        ultimately show ?thesis
          using assms length_dict_set[of "name it" it "spends m'"]
          by (simp add: Admit ev Inr pool_after_def insert_item_simps)
      qed
    qed
  qed
qed

lemma capacity_run:
  "pool_size m = int c \<Longrightarrow> length (spends m) \<le> c \<Longrightarrow>
   pool_size (run m cs) = int c \<and> length (spends (run m cs)) \<le> c"
proof (induction cs arbitrary: m)
  case Nil
  then show ?case by simp
next
  case (Cons cl cs)
  from capacity_step[OF Cons.prems, of cl] Cons.IH show ?case by simp
qed

section \<open>The fee-rate index\<close>

lemma fee_index_ok_cong:
  "spends m' = spends m \<Longrightarrow> sorted_spends m' = sorted_spends m \<Longrightarrow>
   fee_index_ok m' = fee_index_ok m"
  by (simp add: fee_index_ok_def)

lemma fee_index_ok_create: "fee_index_ok (create tip sz)"
  by (simp add: fee_index_ok_def create_def)

lemma strict_sorted_distinct: "sorted_wrt (<) (xs :: 'a::linorder list) \<Longrightarrow> distinct xs"
  by (induction xs) auto

lemma keys_delete: "map fst (AList.delete k d) = filter (\<lambda>x. x \<noteq> k) (map fst d)"
  by (induction d) auto

lemma sorted_keys_delete:
  "sorted_wrt (<) (map fst sd) \<Longrightarrow> sorted_wrt (<) (map fst (AList.delete k sd))"
  by (simp add: keys_delete sorted_wrt_filter)

lemma keys_update_present:
  "map_of sd k = Some b \<Longrightarrow> map fst (AList.update k v sd) = map fst sd"
  using keys_map_of[of k sd] by (simp add: update_keys)

lemma insert_item_sorted_map:
  "map_of (sorted_spends (insert_item m it a rd)) =
     (map_of (sorted_spends m))
       (fee_per_cost it \<mapsto>
          dict_set (name it) it
            (case map_of (sorted_spends m) (fee_per_cost it) of None \<Rightarrow> [] | Some b \<Rightarrow> b))"
  by (simp add: insert_item_simps update_conv' map_of_sd_set split: option.splits)

lemma insert_item_sorted_keys:
  assumes "sorted_wrt (<) (map fst (sorted_spends m))"
  shows "sorted_wrt (<) (map fst (sorted_spends (insert_item m it a rd)))"
proof (cases "map_of (sorted_spends m) (fee_per_cost it)")
  case None
  have "map_of (sd_set (fee_per_cost it) [] (sorted_spends m)) (fee_per_cost it) = Some []"
    by (simp add: map_of_sd_set)
  from keys_update_present[OF this] sorted_sd_set[OF assms] None
  show ?thesis by (simp add: insert_item_simps)
next
  case (Some b)
  from keys_update_present[OF Some] assms Some show ?thesis by (simp add: insert_item_simps)
qed

lemma fee_index_ok_insert_item:
  assumes ok: "fee_index_ok m" and new: "name it \<notin> fst ` set (spends m)"
  shows "fee_index_ok (insert_item m it a rd)"
proof -
  let ?m' = "insert_item m it a rd"
  let ?b0 = "case map_of (sorted_spends m) (fee_per_cost it) of None \<Rightarrow> [] | Some b \<Rightarrow> b"
  have sp: "map_of (spends ?m') = (map_of (spends m))(name it \<mapsto> it)"
    by (simp add: insert_item_simps map_of_dict_set)
  have ss: "map_of (sorted_spends ?m') =
      (map_of (sorted_spends m))(fee_per_cost it \<mapsto> dict_set (name it) it ?b0)"
    by (rule insert_item_sorted_map)
  have none: "map_of (spends m) (name it) = None"
    using new keys_map_of[of "name it" "spends m"] by (cases "map_of (spends m) (name it)") auto
  have b0_distinct: "distinct (map fst ?b0)"
  proof (cases "map_of (sorted_spends m) (fee_per_cost it)")
    case None
    then show ?thesis by simp
  next
    case (Some b)
    with ok have "distinct (map fst b)" unfolding fee_index_ok_def by blast
    then show ?thesis using Some by simp
  qed
  have b0_items: "fee_per_cost it' = fee_per_cost it \<and> map_of (spends m) k = Some it'"
    if h: "map_of ?b0 k = Some it'" for k it'
  proof (cases "map_of (sorted_spends m) (fee_per_cost it)")
    case None
    then show ?thesis using h by simp
  next
    case (Some b)
    then have "map_of b k = Some it'" using h by simp
    with Some ok show ?thesis unfolding fee_index_ok_def by blast
  qed
  have d: "distinct (map fst (spends ?m'))"
    using ok by (simp add: insert_item_simps distinct_dict_set fee_index_ok_def)
  have s: "sorted_wrt (<) (map fst (sorted_spends ?m'))"
    using ok by (simp add: insert_item_sorted_keys fee_index_ok_def)
  have c3: "name it' = k \<and>
        (\<exists>b. map_of (sorted_spends ?m') (fee_per_cost it') = Some b \<and> map_of b k = Some it')"
    if h: "map_of (spends ?m') k = Some it'" for k it'
  proof (cases "k = name it")
    case True
    then have "it' = it" using h by (simp add: sp)
    then show ?thesis using True by (simp add: ss map_of_dict_set)
  next
    case False
    then have old: "map_of (spends m) k = Some it'" using h by (simp add: sp)
    then obtain b where b: "name it' = k" "map_of (sorted_spends m) (fee_per_cost it') = Some b"
        "map_of b k = Some it'"
      using ok unfolding fee_index_ok_def by blast
    show ?thesis
    proof (cases "fee_per_cost it' = fee_per_cost it")
      case True
      then show ?thesis using b False by (simp add: ss map_of_dict_set)
    next
      case False
      then show ?thesis using b by (simp add: ss)
    qed
  qed
  have c4: "b \<noteq> [] \<and> distinct (map fst b) \<and>
        (\<forall>k it'. map_of b k = Some it' \<longrightarrow>
           fee_per_cost it' = f \<and> map_of (spends ?m') k = Some it')"
    if h: "map_of (sorted_spends ?m') f = Some b" for f b
  proof (cases "f = fee_per_cost it")
    case True
    then have b: "b = dict_set (name it) it ?b0" using h by (simp add: ss)
    have "b \<noteq> []" by (simp add: b dict_set_def)
    moreover have "distinct (map fst b)" using b0_distinct by (simp add: b distinct_dict_set)
    moreover have "fee_per_cost it' = f \<and> map_of (spends ?m') k = Some it'"
      if "map_of b k = Some it'" for k it'
    proof (cases "k = name it")
      case True
      have "map_of (spends ?m') (name it) = Some it" by (simp add: sp)
      moreover have "it' = it" using that True by (simp add: b map_of_dict_set)
      ultimately show ?thesis using True \<open>f = fee_per_cost it\<close> by simp
    next
      case False
      then have "map_of ?b0 k = Some it'" using that by (simp add: b map_of_dict_set)
      from b0_items[OF this] False \<open>f = fee_per_cost it\<close> show ?thesis by (simp add: sp)
    qed
    ultimately show ?thesis by blast
  next
    case False
    then have old: "map_of (sorted_spends m) f = Some b" using h by (simp add: ss)
    then have o: "b \<noteq> []" "distinct (map fst b)"
       "\<And>k it'. map_of b k = Some it' \<Longrightarrow> fee_per_cost it' = f \<and> map_of (spends m) k = Some it'"
      using ok unfolding fee_index_ok_def by blast+
    have "map_of (spends ?m') k = Some it'" if "map_of b k = Some it'" for k it'
    proof -
      have "map_of (spends m) k = Some it'" using o(3)[OF that] by simp
      then have "k \<noteq> name it" using none by auto
      then show ?thesis using \<open>map_of (spends m) k = Some it'\<close> by (simp add: sp)
    qed
    then show ?thesis using o by blast
  qed
  show ?thesis unfolding fee_index_ok_def using d s c3 c4 by blast
qed

lemma fee_index_ok_remove_spend:
  assumes ok: "fee_index_ok m" and r: "remove_spend m it = Inr m'"
      and adm: "map_of (spends m) (name it) = Some it"
  shows "fee_index_ok m'"
proof -
  let ?n = "name it" and ?f = "fee_per_cost it"
  note D = remove_spend_Inr_D[OF r]
  obtain b where b: "map_of (sorted_spends m) ?f = Some b" "?n \<in> fst ` set b"
    and ss: "sorted_spends m' =
                (if AList.delete ?n b = [] then AList.delete ?f (sorted_spends m)
                 else AList.update ?f (AList.delete ?n b) (sorted_spends m))"
    using D(8) by blast
  have sp: "map_of (spends m') = (map_of (spends m))(?n := None)"
    by (simp add: D(7) delete_conv')
  have ssm: "map_of (sorted_spends m') =
      (if AList.delete ?n b = [] then (map_of (sorted_spends m))(?f := None)
       else (map_of (sorted_spends m))(?f \<mapsto> AList.delete ?n b))"
    by (simp add: ss delete_conv' update_conv')
  have names: "\<And>k i. map_of (spends m) k = Some i \<Longrightarrow> name i = k"
    using ok unfolding fee_index_ok_def by blast
  have bucket_of: "\<And>k i. map_of (spends m) k = Some i \<Longrightarrow>
      \<exists>b. map_of (sorted_spends m) (fee_per_cost i) = Some b \<and> map_of b k = Some i"
    using ok unfolding fee_index_ok_def by blast
  have buckets: "\<And>f b. map_of (sorted_spends m) f = Some b \<Longrightarrow>
      b \<noteq> [] \<and> distinct (map fst b) \<and>
      (\<forall>k i. map_of b k = Some i \<longrightarrow> fee_per_cost i = f \<and> map_of (spends m) k = Some i)"
    using ok unfolding fee_index_ok_def by blast
  have d: "distinct (map fst (spends m'))"
    using ok by (simp add: D(7) distinct_delete fee_index_ok_def)
  have s: "sorted_wrt (<) (map fst (sorted_spends m'))"
    using ok keys_update_present[OF b(1)]
    by (simp add: ss sorted_keys_delete fee_index_ok_def)
  have c3: "name i = k \<and>
        (\<exists>b'. map_of (sorted_spends m') (fee_per_cost i) = Some b' \<and> map_of b' k = Some i)"
    if h: "map_of (spends m') k = Some i" for k i
  proof -
    have k: "k \<noteq> ?n" and old: "map_of (spends m) k = Some i"
      using h by (auto simp: sp split: if_splits)
    obtain b' where b': "map_of (sorted_spends m) (fee_per_cost i) = Some b'" "map_of b' k = Some i"
      using bucket_of[OF old] by blast
    show ?thesis
    proof (cases "fee_per_cost i = ?f")
      case True
      then have "b' = b" using b' b by simp
      then have in_del: "map_of (AList.delete ?n b) k = Some i" using b' k by (simp add: delete_conv')
      then have "AList.delete ?n b \<noteq> []" by auto
      then show ?thesis using names[OF old] in_del True by (simp add: ssm)
    next
      case False
      then show ?thesis using names[OF old] b' by (simp add: ssm)
    qed
  qed
  have c4: "b' \<noteq> [] \<and> distinct (map fst b') \<and>
        (\<forall>k i. map_of b' k = Some i \<longrightarrow>
           fee_per_cost i = f \<and> map_of (spends m') k = Some i)"
    if h: "map_of (sorted_spends m') f = Some b'" for f b'
  proof (cases "f = ?f")
    case True
    then have ne: "AList.delete ?n b \<noteq> []" and b'eq: "b' = AList.delete ?n b"
      using h by (auto simp: ssm split: if_splits)
    have "distinct (map fst b')" using buckets[OF b(1)] by (simp add: b'eq distinct_delete)
    moreover have "fee_per_cost i = f \<and> map_of (spends m') k = Some i"
      if "map_of b' k = Some i" for k i
    proof -
      have "k \<noteq> ?n" and "map_of b k = Some i"
        using that by (auto simp: b'eq delete_conv' split: if_splits)
      then show ?thesis using buckets[OF b(1)] True by (simp add: sp)
    qed
    moreover have "b' \<noteq> []" using ne b'eq by simp
    ultimately show ?thesis by simp
  next
    case False
    then have old: "map_of (sorted_spends m) f = Some b'"
      using h by (auto simp: ssm split: if_splits)
    have "map_of (spends m') k = Some i" if "map_of b' k = Some i" for k i
    proof -
      have i: "fee_per_cost i = f" "map_of (spends m) k = Some i"
        using buckets[OF old] that by blast+
      have "k \<noteq> ?n"
      proof
        assume "k = ?n"
        then have "i = it" using i(2) adm by simp
        then show False using i(1) False by simp
      qed
      then show ?thesis using i(2) by (simp add: sp)
    qed
    then show ?thesis using buckets[OF old] by blast
  qed
  show ?thesis unfolding fee_index_ok_def using d s c3 c4 by blast
qed

lemma fee_index_ok_remove_spend_raise:
  assumes ok: "fee_index_ok m" and r: "remove_spend m it = Inl (e, m')"
      and adm: "map_of (spends m) (name it) = Some it"
  shows "spends m' = spends m" and "sorted_spends m' = sorted_spends m" and "fee_index_ok m'"
proof -
  note D = remove_spend_Inl_D[OF r]
  obtain b where "map_of (sorted_spends m) (fee_per_cost it) = Some b" "map_of b (name it) = Some it"
    using ok adm unfolding fee_index_ok_def by blast
  then have "\<not> (\<forall>b. map_of (sorted_spends m) (fee_per_cost it) = Some b \<longrightarrow> name it \<notin> fst ` set b)"
    using keys_map_of[of "name it" b] by auto
  then show 1: "spends m' = spends m" using D(8) by blast
  show 2: "sorted_spends m' = sorted_spends m" by (rule D(7))
  show "fee_index_ok m'" using ok fee_index_ok_cong[OF 1 2] by simp
qed

lemma fee_index_ok_after_remove:
  assumes "fee_index_ok m" and "map_of (spends m) (name it) = Some it"
  shows "fee_index_ok (pool_after (remove_spend m it))"
proof (cases "remove_spend m it")
  case (Inl p)
  obtain e m' where p: "p = (e, m')" by (cases p)
  from fee_index_ok_remove_spend_raise(3)[OF assms(1) Inl[unfolded p] assms(2)]
  show ?thesis by (simp add: pool_after_def Inl p)
next
  case (Inr m')
  from fee_index_ok_remove_spend[OF assms(1) Inr assms(2)]
  show ?thesis by (simp add: pool_after_def Inr)
qed

text \<open>The item that \<^verbatim>\<open>add_to_pool\<close> evicts from a full pool.\<close>

lemma victim_admitted:
  assumes ok: "fee_index_ok m" and sh: "sorted_spends m = (f, (k, v) # b) # sd"
  shows "map_of (spends m) (name v) = Some v" and "fee_per_cost v = f"
proof -
  have 1: "map_of (sorted_spends m) f = Some ((k, v) # b)" by (simp add: sh)
  have 2: "map_of ((k, v) # b) k = Some v" by simp
  have 3: "fee_per_cost v = f \<and> map_of (spends m) k = Some v"
    using ok 1 2 unfolding fee_index_ok_def by blast
  then have "name v = k" using ok unfolding fee_index_ok_def by blast
  then show "map_of (spends m) (name v) = Some v" and "fee_per_cost v = f" using 3 by simp_all
qed

lemma first_key_least:
  assumes ok: "fee_index_ok m" and sh: "sorted_spends m = (f, b) # sd"
      and i: "map_of (spends m) k = Some i"
  shows "f \<le> fee_per_cost i"
proof -
  obtain b' where "map_of (sorted_spends m) (fee_per_cost i) = Some b'"
    using ok i unfolding fee_index_ok_def by blast
  then have "fee_per_cost i \<in> fst ` set (sorted_spends m)"
    using keys_map_of[of "fee_per_cost i" "sorted_spends m"] by simp
  moreover have "sorted_wrt (<) (map fst (sorted_spends m))"
    using ok unfolding fee_index_ok_def by blast
  ultimately show ?thesis by (auto simp: sh)
qed

lemma fee_index_ok_after_add:
  assumes ok: "fee_index_ok m" and new: "name it \<notin> fst ` set (spends m)"
  shows "fee_index_ok (pool_after (add_to_pool m it a rd))"
proof (cases "at_full_capacity m")
  case False
  then show ?thesis
    using fee_index_ok_insert_item[OF ok new] by (simp add: add_to_pool_not_full pool_after_def)
next
  case True
  show ?thesis
  proof (cases m rule: sorted_spends_shape)
    case 1
    then show ?thesis using ok by (simp add: add_to_pool_no_bucket[OF True] pool_after_def)
  next
    case (2 f sd)
    then show ?thesis using ok by (simp add: add_to_pool_empty_bucket[OF True] pool_after_def)
  next
    case (3 f k v b sd)
    note ev = add_to_pool_evict[OF True 3, of it a rd]
    note adm = victim_admitted(1)[OF ok 3]
    show ?thesis
    proof (cases "remove_spend m v")
      case (Inl p)
      obtain e m' where p: "p = (e, m')" by (cases p)
      from fee_index_ok_remove_spend_raise(3)[OF ok Inl[unfolded p] adm]
      show ?thesis by (simp add: ev Inl p pool_after_def)
    next
      case (Inr m')
      have ok': "fee_index_ok m'" by (rule fee_index_ok_remove_spend[OF ok Inr adm])
      have "fst ` set (spends m') \<subseteq> fst ` set (spends m)"
        using remove_spend_Inr_D(7)[OF Inr] by (simp add: dom_delete_subset)
      then have new': "name it \<notin> fst ` set (spends m')" using new by blast
      from fee_index_ok_insert_item[OF ok' new']
      show ?thesis by (simp add: ev Inr pool_after_def)
    qed
  qed
qed

lemma fee_index_ok_step:
  assumes "fee_index_ok m" and "contract m cl"
  shows "fee_index_ok (pool_after (exec m cl))"
proof (cases cl)
  case (Admit it a rd)
  then show ?thesis using assms fee_index_ok_after_add[of m it a rd] by simp
next
  case (Remove it)
  then show ?thesis using assms fee_index_ok_after_remove[of m it] by simp
qed

lemma fee_index_ok_run:
  "fee_index_ok m \<Longrightarrow> obeys contract m cs \<Longrightarrow> fee_index_ok (run m cs)"
proof (induction cs arbitrary: m)
  case Nil
  then show ?case by simp
next
  case (Cons cl cs)
  then show ?case using fee_index_ok_step[of m cl] by simp
qed

lemma fee_index_ok_no_empty_buckets: "fee_index_ok m \<Longrightarrow> no_empty_buckets m"
proof -
  assume ok: "fee_index_ok m"
  then have d: "distinct (map fst (sorted_spends m))"
    unfolding fee_index_ok_def using strict_sorted_distinct by blast
  have "b \<noteq> []" if "(f, b) \<in> set (sorted_spends m)" for f b
  proof -
    have "map_of (sorted_spends m) f = Some b" using d that by simp
    then show ?thesis using ok unfolding fee_index_ok_def by blast
  qed
  then show ?thesis by (auto simp: no_empty_buckets_def)
qed

section \<open>The coin indices\<close>

lemma coin_index_ok_removalsD:
  assumes "coin_index_ok m" and "map_of (removals m) c = Some i"
  shows "map_of (spends m) (name i) = Some i \<and> c \<in> coin_name ` set (bundle_removals i)"
proof -
  from assms(1) have "\<forall>c it. map_of (removals m) c = Some it \<longrightarrow>
        map_of (spends m) (name it) = Some it \<and> c \<in> coin_name ` set (bundle_removals it)"
    unfolding coin_index_ok_def by (rule conjunct1)
  with assms(2) show ?thesis by blast
qed

lemma coin_index_ok_additionsD:
  assumes "coin_index_ok m" and "map_of (additions m) c = Some i"
  shows "map_of (spends m) (name i) = Some i \<and> c \<in> coin_name ` set (bundle_additions i)"
proof -
  from assms(1) have "\<forall>c it. map_of (additions m) c = Some it \<longrightarrow>
        map_of (spends m) (name it) = Some it \<and> c \<in> coin_name ` set (bundle_additions it)"
    unfolding coin_index_ok_def by (elim conjE)
  with assms(2) show ?thesis by blast
qed

lemma coin_index_ok_spendsD:
  assumes "coin_index_ok m" and "map_of (spends m) k = Some i"
  shows "distinct (map coin_name (bundle_removals i))"
    and "distinct (map coin_name (bundle_additions i))"
    and "\<And>c. c \<in> set (bundle_removals i) \<Longrightarrow> map_of (removals m) (coin_name c) = Some i"
    and "\<And>c. c \<in> set (bundle_additions i) \<Longrightarrow> map_of (additions m) (coin_name c) = Some i"
proof -
  from assms(1) have "\<forall>k it. map_of (spends m) k = Some it \<longrightarrow>
        distinct (map coin_name (bundle_removals it)) \<and>
        distinct (map coin_name (bundle_additions it)) \<and>
        (\<forall>c \<in> set (bundle_removals it). map_of (removals m) (coin_name c) = Some it) \<and>
        (\<forall>c \<in> set (bundle_additions it). map_of (additions m) (coin_name c) = Some it)"
    unfolding coin_index_ok_def by (elim conjE)
  with assms(2) have *: "distinct (map coin_name (bundle_removals i)) \<and>
        distinct (map coin_name (bundle_additions i)) \<and>
        (\<forall>c \<in> set (bundle_removals i). map_of (removals m) (coin_name c) = Some i) \<and>
        (\<forall>c \<in> set (bundle_additions i). map_of (additions m) (coin_name c) = Some i)"
    by blast
  from * show "distinct (map coin_name (bundle_removals i))" by simp
  from * show "distinct (map coin_name (bundle_additions i))" by simp
  from * show "\<And>c. c \<in> set (bundle_removals i) \<Longrightarrow> map_of (removals m) (coin_name c) = Some i"
    by simp
  from * show "\<And>c. c \<in> set (bundle_additions i) \<Longrightarrow> map_of (additions m) (coin_name c) = Some i"
    by simp
qed

lemma coin_index_okI:
  assumes "\<And>c i. map_of (removals m) c = Some i \<Longrightarrow>
        map_of (spends m) (name i) = Some i \<and> c \<in> coin_name ` set (bundle_removals i)"
      and "\<And>c i. map_of (additions m) c = Some i \<Longrightarrow>
        map_of (spends m) (name i) = Some i \<and> c \<in> coin_name ` set (bundle_additions i)"
      and "\<And>k i. map_of (spends m) k = Some i \<Longrightarrow>
        distinct (map coin_name (bundle_removals i)) \<and>
        distinct (map coin_name (bundle_additions i)) \<and>
        (\<forall>c \<in> set (bundle_removals i). map_of (removals m) (coin_name c) = Some i) \<and>
        (\<forall>c \<in> set (bundle_additions i). map_of (additions m) (coin_name c) = Some i)"
  shows "coin_index_ok m"
  unfolding coin_index_ok_def
  apply (rule conjI)
   apply (intro allI impI)
   apply (erule assms(1))
  apply (rule conjI)
   apply (intro allI impI)
   apply (erule assms(2))
  apply (intro allI impI)
  apply (erule assms(3))
  done

lemma map_of_Some_key: "map_of d k = Some v \<Longrightarrow> k \<in> fst ` set d"
  using keys_map_of[of k d] by blast

lemma coin_index_ok_create: "coin_index_ok (create tip sz)"
  by (simp add: coin_index_ok_def create_def)

lemma remove_spend_admitted_returns:
  assumes fok: "fee_index_ok m" and cok: "coin_index_ok m"
      and adm: "map_of (spends m) (name it) = Some it"
  shows "\<exists>m'. remove_spend m it = Inr m'"
proof -
  note c = coin_index_ok_spendsD[OF cok adm]
  have r: "coin_name ` set (bundle_removals it) \<subseteq> fst ` set (removals m)"
    using c(3) by (auto simp: keys_map_of)
  have a: "coin_name ` set (bundle_additions it) \<subseteq> fst ` set (additions m)"
    using c(4) by (auto simp: keys_map_of)
  have n: "name it \<in> fst ` set (spends m)" using adm by (auto simp: keys_map_of)
  obtain b where b: "map_of (sorted_spends m) (fee_per_cost it) = Some b" "map_of b (name it) = Some it"
    using fok adm unfolding fee_index_ok_def by blast
  have nb: "name it \<in> fst ` set b" using b(2) by (auto simp: keys_map_of)
  show ?thesis by (rule remove_spend_returns[OF c(1) r c(2) a n b(1) nb])
qed

lemma coin_index_ok_remove_spend:
  assumes fok: "fee_index_ok m" and cok: "coin_index_ok m"
      and adm: "map_of (spends m) (name it) = Some it"
      and r: "remove_spend m it = Inr m'"
  shows "coin_index_ok m'"
proof -
  note D = remove_spend_Inr_D[OF r]
  have names: "\<And>k i. map_of (spends m) k = Some i \<Longrightarrow> name i = k"
    using fok unfolding fee_index_ok_def by blast
  have sp: "map_of (spends m') = (map_of (spends m))(name it := None)"
    by (simp add: D(7) delete_conv')
  have rm: "map_of (removals m') c =
      (if c \<notin> coin_name ` set (bundle_removals it) then map_of (removals m) c else None)" for c
    unfolding D(5) by (rule map_of_filter_keys)
  have ad: "map_of (additions m') c =
      (if c \<notin> coin_name ` set (bundle_additions it) then map_of (additions m) c else None)" for c
    unfolding D(6) by (rule map_of_filter_keys)
  note c1 = coin_index_ok_removalsD[OF cok] and c2 = coin_index_ok_additionsD[OF cok]
    and c3 = coin_index_ok_spendsD[OF cok]
  have other: "i \<noteq> it" if "map_of (spends m') k = Some i" for k i
  proof
    assume "i = it"
    moreover have "k \<noteq> name it" "map_of (spends m) k = Some i"
      using that by (auto simp: sp split: if_splits)
    ultimately show False using names by blast
  qed
  have g1: "map_of (spends m') (name i) = Some i \<and> c \<in> coin_name ` set (bundle_removals i)"
    if h: "map_of (removals m') c = Some i" for c i
  proof -
    have nc: "c \<notin> coin_name ` set (bundle_removals it)" and old: "map_of (removals m) c = Some i"
      using h by (auto simp: rm split: if_splits)
    have i: "map_of (spends m) (name i) = Some i" "c \<in> coin_name ` set (bundle_removals i)"
      using c1[OF old] by simp_all
    have "name i \<noteq> name it"
    proof
      assume e: "name i = name it"
      from i(1) have "map_of (spends m) (name it) = Some i" by (simp only: e)
      from trans[OF sym[OF this] adm] have "i = it" by (simp only: option.inject)
      then show False using nc i(2) by simp
    qed
    then show ?thesis using i by (simp add: sp)
  qed
  have g2: "map_of (spends m') (name i) = Some i \<and> c \<in> coin_name ` set (bundle_additions i)"
    if h: "map_of (additions m') c = Some i" for c i
  proof -
    have nc: "c \<notin> coin_name ` set (bundle_additions it)" and old: "map_of (additions m) c = Some i"
      using h by (auto simp: ad split: if_splits)
    have i: "map_of (spends m) (name i) = Some i" "c \<in> coin_name ` set (bundle_additions i)"
      using c2[OF old] by simp_all
    have "name i \<noteq> name it"
    proof
      assume e: "name i = name it"
      from i(1) have "map_of (spends m) (name it) = Some i" by (simp only: e)
      from trans[OF sym[OF this] adm] have "i = it" by (simp only: option.inject)
      then show False using nc i(2) by simp
    qed
    then show ?thesis using i by (simp add: sp)
  qed
  have g3: "distinct (map coin_name (bundle_removals i)) \<and>
        distinct (map coin_name (bundle_additions i)) \<and>
        (\<forall>c \<in> set (bundle_removals i). map_of (removals m') (coin_name c) = Some i) \<and>
        (\<forall>c \<in> set (bundle_additions i). map_of (additions m') (coin_name c) = Some i)"
    if h: "map_of (spends m') k = Some i" for k i
  proof -
    have ne: "i \<noteq> it" by (rule other[OF h])
    have old: "map_of (spends m) k = Some i" using h by (auto simp: sp split: if_splits)
    note o = c3[OF old]
    have "map_of (removals m') (coin_name c) = Some i" if c: "c \<in> set (bundle_removals i)" for c
    proof -
      have m: "map_of (removals m) (coin_name c) = Some i" by (rule o(3)[OF c])
      have "coin_name c \<notin> coin_name ` set (bundle_removals it)"
      proof
        assume "coin_name c \<in> coin_name ` set (bundle_removals it)"
        then obtain c' where c': "c' \<in> set (bundle_removals it)" "coin_name c' = coin_name c"
          by (elim imageE) simp
        have "map_of (removals m) (coin_name c') = Some it" by (rule c3(3)[OF adm c'(1)])
        then have "map_of (removals m) (coin_name c) = Some it" by (simp only: c'(2))
        then show False using m ne by simp
      qed
      then show ?thesis using m by (simp add: rm)
    qed
    moreover
    have "map_of (additions m') (coin_name c) = Some i" if c: "c \<in> set (bundle_additions i)" for c
    proof -
      have m: "map_of (additions m) (coin_name c) = Some i" by (rule o(4)[OF c])
      have "coin_name c \<notin> coin_name ` set (bundle_additions it)"
      proof
        assume "coin_name c \<in> coin_name ` set (bundle_additions it)"
        then obtain c' where c': "c' \<in> set (bundle_additions it)" "coin_name c' = coin_name c"
          by (elim imageE) simp
        have "map_of (additions m) (coin_name c') = Some it" by (rule c3(4)[OF adm c'(1)])
        then have "map_of (additions m) (coin_name c) = Some it" by (simp only: c'(2))
        then show False using m ne by simp
      qed
      then show ?thesis using m by (simp add: ad)
    qed
    ultimately show ?thesis using o(1,2) by blast
  qed
  show ?thesis by (rule coin_index_okI) (fact g1 g2 g3)+
qed

lemma coin_index_ok_insert_item:
  assumes cok: "coin_index_ok m"
      and new: "name it \<notin> fst ` set (spends m)"
      and dr: "distinct (map coin_name (bundle_removals it))"
      and da: "distinct (map coin_name (bundle_additions it))"
      and ma: "set (map coin_name a) = set (map coin_name (bundle_additions it))"
      and mr: "set (map fst rd) = set (map coin_name (bundle_removals it))"
      and fr: "\<forall>c \<in> set (bundle_removals it). coin_name c \<notin> fst ` set (removals m)"
      and fa: "\<forall>c \<in> set (bundle_additions it). coin_name c \<notin> fst ` set (additions m)"
  shows "coin_index_ok (insert_item m it a rd)"
proof -
  let ?m' = "insert_item m it a rd"
  have sp: "map_of (spends ?m') = (map_of (spends m))(name it \<mapsto> it)"
    by (simp add: insert_item_simps map_of_dict_set)
  have rm: "map_of (removals ?m') c =
      (if c \<in> coin_name ` set (bundle_removals it) then Some it else map_of (removals m) c)" for c
    using mr by (simp add: insert_item_simps map_of_set_each)
  have ad: "map_of (additions ?m') c =
      (if c \<in> coin_name ` set (bundle_additions it) then Some it else map_of (additions m) c)" for c
    using ma by (simp add: insert_item_simps map_of_set_each)
  have none: "map_of (spends m) (name it) = None"
    using new keys_map_of[of "name it" "spends m"] by (cases "map_of (spends m) (name it)") auto
  note c1 = coin_index_ok_removalsD[OF cok] and c2 = coin_index_ok_additionsD[OF cok]
    and c3 = coin_index_ok_spendsD[OF cok]
  have self: "map_of (spends ?m') (name it) = Some it" by (simp add: sp)
  have keep: "map_of (spends ?m') (name i) = Some i" if "map_of (spends m) (name i) = Some i" for i
  proof -
    have "name i \<noteq> name it"
    proof
      assume e: "name i = name it"
      from that have "map_of (spends m) (name it) = Some i" by (simp only: e)
      with none show False by simp
    qed
    then show ?thesis using that by (simp add: sp)
  qed
  have g1: "map_of (spends ?m') (name i) = Some i \<and> c \<in> coin_name ` set (bundle_removals i)"
    if h: "map_of (removals ?m') c = Some i" for c i
  proof (cases "c \<in> coin_name ` set (bundle_removals it)")
    case True
    then have "i = it" using h by (simp add: rm)
    then show ?thesis using self True by simp
  next
    case False
    then have "map_of (removals m) c = Some i" using h by (simp add: rm)
    then show ?thesis using c1 keep by blast
  qed
  have g2: "map_of (spends ?m') (name i) = Some i \<and> c \<in> coin_name ` set (bundle_additions i)"
    if h: "map_of (additions ?m') c = Some i" for c i
  proof (cases "c \<in> coin_name ` set (bundle_additions it)")
    case True
    then have "i = it" using h by (simp add: ad)
    then show ?thesis using self True by simp
  next
    case False
    then have "map_of (additions m) c = Some i" using h by (simp add: ad)
    then show ?thesis using c2 keep by blast
  qed
  have g3: "distinct (map coin_name (bundle_removals i)) \<and>
        distinct (map coin_name (bundle_additions i)) \<and>
        (\<forall>c \<in> set (bundle_removals i). map_of (removals ?m') (coin_name c) = Some i) \<and>
        (\<forall>c \<in> set (bundle_additions i). map_of (additions ?m') (coin_name c) = Some i)"
    if h: "map_of (spends ?m') k = Some i" for k i
  proof (cases "k = name it")
    case True
    then have "i = it" using h by (simp add: sp)
    then show ?thesis using dr da by (simp add: rm ad)
  next
    case False
    then have old: "map_of (spends m) k = Some i" using h by (simp add: sp)
    note o = c3[OF old]
    have "map_of (removals ?m') (coin_name c) = Some i" if c: "c \<in> set (bundle_removals i)" for c
    proof -
      have m: "map_of (removals m) (coin_name c) = Some i" by (rule o(3)[OF c])
      then have k: "coin_name c \<in> fst ` set (removals m)" by (rule map_of_Some_key)
      have "coin_name c \<notin> coin_name ` set (bundle_removals it)"
      proof
        assume "coin_name c \<in> coin_name ` set (bundle_removals it)"
        then obtain c' where c': "c' \<in> set (bundle_removals it)" "coin_name c' = coin_name c"
          by (elim imageE) simp
        from fr c'(1) have "coin_name c' \<notin> fst ` set (removals m)" by (rule bspec)
        then show False using k by (simp add: c'(2))
      qed
      then show ?thesis using m by (simp add: rm)
    qed
    moreover
    have "map_of (additions ?m') (coin_name c) = Some i" if c: "c \<in> set (bundle_additions i)" for c
    proof -
      have m: "map_of (additions m) (coin_name c) = Some i" by (rule o(4)[OF c])
      then have k: "coin_name c \<in> fst ` set (additions m)" by (rule map_of_Some_key)
      have "coin_name c \<notin> coin_name ` set (bundle_additions it)"
      proof
        assume "coin_name c \<in> coin_name ` set (bundle_additions it)"
        then obtain c' where c': "c' \<in> set (bundle_additions it)" "coin_name c' = coin_name c"
          by (elim imageE) simp
        from fa c'(1) have "coin_name c' \<notin> fst ` set (additions m)" by (rule bspec)
        then show False using k by (simp add: c'(2))
      qed
      then show ?thesis using m by (simp add: ad)
    qed
    ultimately show ?thesis using o(1,2) by blast
  qed
  show ?thesis by (rule coin_index_okI) (fact g1 g2 g3)+
qed

section \<open>Calls that keep the contract\<close>

lemma conflict_free_contract_contract: "conflict_free_contract m cl \<Longrightarrow> contract m cl"
  by (cases cl) simp_all

lemma obeys_conflict_free_contract:
  "obeys conflict_free_contract m cs \<Longrightarrow> obeys contract m cs"
  by (induction cs arbitrary: m) (simp_all add: conflict_free_contract_contract)

lemma spends_nonempty_bucket:
  assumes ok: "fee_index_ok m" and ne: "spends m \<noteq> []"
  shows "sorted_spends m \<noteq> []"
proof -
  obtain k i where "(k, i) \<in> set (spends m)" using ne by (cases "spends m") auto
  then have "k \<in> fst ` set (spends m)" by force
  then obtain i' where "map_of (spends m) k = Some i'" using keys_map_of[of k "spends m"] by blast
  then obtain b where "map_of (sorted_spends m) (fee_per_cost i') = Some b"
    using ok unfolding fee_index_ok_def by blast
  then show ?thesis by auto
qed

lemma head_bucket_nonempty:
  assumes ok: "fee_index_ok m" and sh: "sorted_spends m = (f, b) # sd"
  shows "b \<noteq> []"
proof -
  have "map_of (sorted_spends m) f = Some b" by (simp add: sh)
  then show ?thesis using ok unfolding fee_index_ok_def by blast
qed

text \<open>On a full pool that satisfies both invariants the eviction returns.\<close>

lemma add_to_pool_full:
  assumes fok: "fee_index_ok m" and cok: "coin_index_ok m"
      and full: "at_full_capacity m" and ne: "sorted_spends m \<noteq> []"
  obtains f k v b sd m' where "sorted_spends m = (f, (k, v) # b) # sd"
    and "remove_spend m v = Inr m'"
    and "add_to_pool m it a rd = Inr (insert_item m' it a rd)"
proof (cases m rule: sorted_spends_shape)
  case 1
  then show ?thesis using ne by simp
next
  case (2 f sd)
  then show ?thesis using head_bucket_nonempty[OF fok 2] by simp
next
  case (3 f k v b sd)
  obtain m' where m': "remove_spend m v = Inr m'"
    using remove_spend_admitted_returns[OF fok cok victim_admitted(1)[OF fok 3]] by blast
  have "add_to_pool m it a rd = Inr (insert_item m' it a rd)"
    by (simp add: add_to_pool_evict[OF full 3] m')
  then show ?thesis using that 3 m' by blast
qed

lemma add_to_pool_outcome:
  assumes fok: "fee_index_ok m" and cok: "coin_index_ok m"
  shows "(\<exists>m'. add_to_pool m it a rd = Inr m') \<or>
         (at_full_capacity m \<and> spends m = [] \<and> add_to_pool m it a rd = Inl (IndexError, m))"
proof (cases "at_full_capacity m")
  case False
  then show ?thesis by (simp add: add_to_pool_not_full)
next
  case True
  show ?thesis
  proof (cases "sorted_spends m = []")
    case e: True
    then have "spends m = []" using spends_nonempty_bucket[OF fok] by blast
    then show ?thesis using add_to_pool_no_bucket[OF True e] True by simp
  next
    case False
    from add_to_pool_full[OF fok cok True False, of it a rd] show ?thesis by metis
  qed
qed

lemma coin_index_ok_after_add:
  assumes fok: "fee_index_ok m" and cok: "coin_index_ok m"
      and c: "conflict_free_contract m (Admit it a rd)"
  shows "coin_index_ok (pool_after (add_to_pool m it a rd))"
proof -
  have new: "name it \<notin> fst ` set (spends m)"
    and dr: "distinct (map coin_name (bundle_removals it))"
    and da: "distinct (map coin_name (bundle_additions it))"
    and ma: "set (map coin_name a) = set (map coin_name (bundle_additions it))"
    and mr: "set (map fst rd) = set (map coin_name (bundle_removals it))"
    and fr: "\<forall>c \<in> set (bundle_removals it). coin_name c \<notin> fst ` set (removals m)"
    and fa: "\<forall>c \<in> set (bundle_additions it). coin_name c \<notin> fst ` set (additions m)"
    using c by simp_all
  show ?thesis
  proof (cases "at_full_capacity m")
    case False
    from coin_index_ok_insert_item[OF cok new dr da ma mr fr fa]
    show ?thesis by (simp add: add_to_pool_not_full[OF False] pool_after_def)
  next
    case True
    show ?thesis
    proof (cases "sorted_spends m = []")
      case e: True
      then show ?thesis using cok by (simp add: add_to_pool_no_bucket[OF True e] pool_after_def)
    next
      case False
      obtain f k v b sd m' where sh: "sorted_spends m = (f, (k, v) # b) # sd"
        and r: "remove_spend m v = Inr m'"
        and eq: "add_to_pool m it a rd = Inr (insert_item m' it a rd)"
        by (rule add_to_pool_full[OF fok cok True False])
      note adm = victim_admitted(1)[OF fok sh]
      note D = remove_spend_Inr_D[OF r]
      have cok': "coin_index_ok m'" by (rule coin_index_ok_remove_spend[OF fok cok adm r])
      have new': "name it \<notin> fst ` set (spends m')"
        using new dom_delete_subset[of "name v" "spends m"] unfolding D(7) by blast
      have "fst ` set (removals m') \<subseteq> fst ` set (removals m)" unfolding D(5) by auto
      then have fr': "\<forall>c \<in> set (bundle_removals it). coin_name c \<notin> fst ` set (removals m')"
        using fr by blast
      have "fst ` set (additions m') \<subseteq> fst ` set (additions m)" unfolding D(6) by auto
      then have fa': "\<forall>c \<in> set (bundle_additions it). coin_name c \<notin> fst ` set (additions m')"
        using fa by blast
      from coin_index_ok_insert_item[OF cok' new' dr da ma mr fr' fa']
      show ?thesis by (simp add: eq pool_after_def)
    qed
  qed
qed

lemma coin_index_ok_after_remove:
  assumes fok: "fee_index_ok m" and cok: "coin_index_ok m"
      and adm: "map_of (spends m) (name it) = Some it"
  shows "coin_index_ok (pool_after (remove_spend m it))"
proof -
  obtain m' where r: "remove_spend m it = Inr m'"
    using remove_spend_admitted_returns[OF fok cok adm] by blast
  from coin_index_ok_remove_spend[OF fok cok adm r] show ?thesis by (simp add: r pool_after_def)
qed

lemma coin_index_ok_step:
  assumes "fee_index_ok m" and "coin_index_ok m" and "conflict_free_contract m cl"
  shows "coin_index_ok (pool_after (exec m cl))"
proof (cases cl)
  case (Admit it a rd)
  then show ?thesis using assms coin_index_ok_after_add[of m it a rd] by simp
next
  case (Remove it)
  then show ?thesis using assms coin_index_ok_after_remove[of m it] by simp
qed

lemma indices_ok_run:
  "fee_index_ok m \<Longrightarrow> coin_index_ok m \<Longrightarrow> obeys conflict_free_contract m cs \<Longrightarrow>
   fee_index_ok (run m cs) \<and> coin_index_ok (run m cs)"
proof (induction cs arbitrary: m)
  case Nil
  then show ?case by simp
next
  case (Cons cl cs)
  have c: "conflict_free_contract m cl"
    and rest: "obeys conflict_free_contract (pool_after (exec m cl)) cs"
    using Cons.prems(3) by simp_all
  have 1: "fee_index_ok (pool_after (exec m cl))"
    by (rule fee_index_ok_step[OF Cons.prems(1) conflict_free_contract_contract[OF c]])
  have 2: "coin_index_ok (pool_after (exec m cl))"
    by (rule coin_index_ok_step[OF Cons.prems(1,2) c])
  from Cons.IH[OF 1 2 rest] show ?case by simp
qed

lemma pool_size_after: "pool_size (pool_after (exec m cl)) = pool_size m"
proof (cases cl)
  case (Remove it)
  then show ?thesis using remove_spend_capacity[of m it] by simp
next
  case (Admit it a rd)
  show ?thesis
  proof (cases "at_full_capacity m")
    case False
    then show ?thesis by (simp add: Admit add_to_pool_not_full pool_after_def insert_item_simps)
  next
    case True
    show ?thesis
    proof (cases m rule: sorted_spends_shape)
      case 1
      then show ?thesis by (simp add: Admit add_to_pool_no_bucket[OF True] pool_after_def)
    next
      case (2 f sd)
      then show ?thesis by (simp add: Admit add_to_pool_empty_bucket[OF True] pool_after_def)
    next
      case (3 f k v b sd)
      note ev = add_to_pool_evict[OF True 3, of it a rd]
      show ?thesis
      proof (cases "remove_spend m v")
        case (Inl p)
        then show ?thesis using remove_spend_capacity[of m v]
          by (simp add: Admit ev pool_after_def split: prod.splits)
      next
        case (Inr m')
        then show ?thesis using remove_spend_Inr_D(3)[OF Inr]
          by (simp add: Admit ev pool_after_def insert_item_simps)
      qed
    qed
  qed
qed

lemma pool_size_run: "pool_size (run m cs) = pool_size m"
  by (induction cs arbitrary: m) (simp_all add: pool_size_after)

section \<open>Coherence from the invariants\<close>





section \<open>Pools reached from an empty pool\<close>

lemma reachable_indices_ok:
  assumes "obeys conflict_free_contract (create tip sz) cs"
  shows "fee_index_ok (run (create tip sz) cs)" and "coin_index_ok (run (create tip sz) cs)"
  using indices_ok_run[OF fee_index_ok_create coin_index_ok_create assms] by simp_all

lemma reachable_fee_index_ok:
  assumes "obeys contract (create tip sz) cs"
  shows "fee_index_ok (run (create tip sz) cs)"
  by (rule fee_index_ok_run[OF fee_index_ok_create assms])

lemma fee_index_ok_no_entries:
  assumes ok: "fee_index_ok m" and e: "spends m = []"
  shows "sorted_spends m = []"
proof (cases m rule: sorted_spends_shape)
  case 1
  then show ?thesis .
next
  case (2 f sd)
  then show ?thesis using head_bucket_nonempty[OF ok 2] by simp
next
  case (3 f k v b sd)
  then show ?thesis using victim_admitted(1)[OF ok 3] e by simp
qed

lemma remove_last_entry:
  assumes fok: "fee_index_ok m" and cok: "coin_index_ok m"
      and only: "spends m = [(name x, x)]"
  shows "\<exists>m'. remove_spend m x = Inr m' \<and> spends m' = [] \<and> sorted_spends m' = []"
proof -
  have adm: "map_of (spends m) (name x) = Some x" by (simp add: only)
  obtain m' where r: "remove_spend m x = Inr m'"
    using remove_spend_admitted_returns[OF fok cok adm] by blast
  have ok': "fee_index_ok m'" by (rule fee_index_ok_remove_spend[OF fok r adm])
  have e: "spends m' = []" using remove_spend_Inr_D(7)[OF r] by (simp add: only)
  show ?thesis using r e fee_index_ok_no_entries[OF ok' e] by simp
qed

lemma length_delete_distinct:
  "distinct (map fst d) \<Longrightarrow> k \<in> fst ` set d \<Longrightarrow> Suc (length (AList.delete k d)) = length d"
proof (induction d)
  case Nil
  then show ?case by simp
next
  case (Cons p d)
  show ?case
  proof (cases "fst p = k")
    case True
    then have "k \<notin> fst ` set d" using Cons.prems(1) by auto
    then have "AList.delete k d = d" by (rule delete_id)
    then show ?thesis using True by (simp add: delete_filter)
  next
    case False
    then have "k \<in> fst ` set d" using Cons.prems(2) by auto
    then show ?thesis using Cons False by (simp add: delete_filter)
  qed
qed

lemma length_dict_set_key:
  "length (dict_set k v d) = (if k \<in> fst ` set d then length d else Suc (length d))"
proof -
  have "length (map fst (AList.update k v d)) =
      (if k \<in> fst ` set d then length d else Suc (length d))"
    by (simp add: update_keys)
  then show ?thesis by (simp add: dict_set_def)
qed

lemma empty_zero_step:
  assumes "spends m = []" and "sorted_spends m = []" and "pool_size m = 0"
  shows "spends (pool_after (exec m cl)) = [] \<and> sorted_spends (pool_after (exec m cl)) = [] \<and>
         pool_size (pool_after (exec m cl)) = 0"
proof (cases cl)
  case (Admit it a rd)
  have "at_full_capacity m" using assms by (simp add: at_full_capacity_def)
  from add_to_pool_no_bucket[OF this assms(2)] show ?thesis
    using assms by (simp add: Admit pool_after_def)
next
  case (Remove it)
  show ?thesis
  proof (cases "remove_spend m it")
    case (Inl p)
    obtain e m' where p: "p = (e, m')" by (cases p)
    note D = remove_spend_Inl_D[OF Inl[unfolded p]]
    have "spends m' = []" using D(8) assms(1) by auto
    then show ?thesis using D(3,7) assms by (simp add: Remove Inl p pool_after_def)
  next
    case (Inr m')
    then show ?thesis using remove_spend_Inr_D(1)[OF Inr] assms(1) by simp
  qed
qed

lemma empty_zero_run:
  "spends m = [] \<Longrightarrow> sorted_spends m = [] \<Longrightarrow> pool_size m = 0 \<Longrightarrow> spends (run m cs) = []"
proof (induction cs arbitrary: m)
  case Nil
  then show ?case by simp
next
  case (Cons cl cs)
  from empty_zero_step[OF Cons.prems, of cl] Cons.IH show ?case by simp
qed

lemma filter_all_keys: "fst ` set d \<subseteq> S \<Longrightarrow> filter (\<lambda>p. fst p \<notin> S) d = []"
  by (auto simp: filter_empty_conv)

section \<open>Bucket members\<close>

lemma bucket_entry_insert_item:
  "bucket_entry (insert_item m it a rd) f k =
     (if f = fee_per_cost it \<and> k = name it then Some it else bucket_entry m f k)"
proof (cases "f = fee_per_cost it")
  case False
  then show ?thesis by (simp add: bucket_entry_def insert_item_sorted_map)
next
  case True
  show ?thesis
  proof (cases "map_of (sorted_spends m) (fee_per_cost it)")
    case None
    then show ?thesis using True
      by (simp add: bucket_entry_def insert_item_sorted_map map_of_dict_set)
  next
    case (Some b)
    then show ?thesis using True
      by (simp add: bucket_entry_def insert_item_sorted_map map_of_dict_set)
  qed
qed

lemma bucket_entry_remove_spend:
  assumes r: "remove_spend m v = Inr m1"
  shows "bucket_entry m1 f k =
     (if f = fee_per_cost v \<and> k = name v then None else bucket_entry m f k)"
proof -
  obtain b where b: "map_of (sorted_spends m) (fee_per_cost v) = Some b"
    and ss: "sorted_spends m1 =
        (if AList.delete (name v) b = [] then AList.delete (fee_per_cost v) (sorted_spends m)
         else AList.update (fee_per_cost v) (AList.delete (name v) b) (sorted_spends m))"
    using remove_spend_Inr_D(8)[OF r] by blast
  show ?thesis
  proof (cases "f = fee_per_cost v")
    case False
    then show ?thesis by (simp add: bucket_entry_def ss delete_conv' update_conv')
  next
    case True
    show ?thesis
    proof (cases "AList.delete (name v) b = []")
      case e: True
      have "map_of b k = None" if "k \<noteq> name v"
      proof -
        have "map_of (AList.delete (name v) b) k = map_of b k" using that by simp
        then show ?thesis by (simp add: e)
      qed
      then show ?thesis using True b e by (simp add: bucket_entry_def ss delete_conv')
    next
      case False
      then show ?thesis using True b by (simp add: bucket_entry_def ss update_conv' delete_conv')
    qed
  qed
qed

section \<open>Claims\<close>




text \<open>
  C2, capacity invariant. A pool is created with capacity \<open>c\<close> and any sequence of
  \<^verbatim>\<open>add_to_pool\<close> and \<^verbatim>\<open>remove_spend\<close> calls is made on it, with any arguments; a call
  that raises hands the pool on as it was at the raise. After the sequence, hence after
  every call of it, \<open>spends\<close> holds at most \<open>c\<close> entries.
\<close>

theorem capacity_invariant:
  "length (spends (run (create tip (int c)) cs)) \<le> c"
  using capacity_run[of "create tip (int c)" c cs] by (simp add: create_def)

text \<open>
  C9, no empty buckets. As the claim states it, in a pool that calls meeting \<open>contract\<close>
  have left with the single entry X of fee rate 7, removing X leaves no key 7. After
  \<open>entry_P\<close> and \<open>entry_T\<close>, which spend the same coin, are admitted and \<open>entry_P\<close> is
  removed, the pool holds \<open>entry_T\<close> of fee rate 7 only; \<^verbatim>\<open>remove_spend(entry_T)\<close> raises
  \<^verbatim>\<open>KeyError\<close> and the key 7 is still there.
\<close>

theorem scenario_c_conflict_counterexample:
  "obeys contract (create 0 2)
     [Admit entry_P [] [(30, Coin 30)], Admit entry_T [] [(30, Coin 30)], Remove entry_P] \<and>
   spends (run (create 0 2)
     [Admit entry_P [] [(30, Coin 30)], Admit entry_T [] [(30, Coin 30)], Remove entry_P]) =
     [(name entry_T, entry_T)] \<and>
   fee_per_cost entry_T = 7 \<and>
   remove_spend (run (create 0 2)
     [Admit entry_P [] [(30, Coin 30)], Admit entry_T [] [(30, Coin 30)], Remove entry_P])
     entry_T =
     Inl (KeyError, run (create 0 2)
       [Admit entry_P [] [(30, Coin 30)], Admit entry_T [] [(30, Coin 30)], Remove entry_P]) \<and>
   7 \<in> fst ` set (sorted_spends (run (create 0 2)
     [Admit entry_P [] [(30, Coin 30)], Admit entry_T [] [(30, Coin 30)], Remove entry_P]))"
  by (simp add: pool_eval entry_defs)

text \<open>
  C9 as amended. Every pool reached from an empty pool by calls that meet \<open>contract\<close>,
  the pools left by a raising call included, has no key of \<open>sorted_spends\<close> mapped to
  an empty bucket. Scenario C: in a pool reached by conflict-free calls whose only entry is
  \<open>x\<close>, of fee rate 7, \<^verbatim>\<open>remove_spend(x)\<close> returns and \<open>sorted_spends\<close> has no key 7
  afterwards.
\<close>

theorem no_empty_buckets_reachable:
  "(obeys contract (create tip sz) cs \<longrightarrow> no_empty_buckets (run (create tip sz) cs)) \<and>
   (obeys conflict_free_contract (create tip sz) cs \<and>
    spends (run (create tip sz) cs) = [(name x, x)] \<and> fee_per_cost x = 7 \<longrightarrow>
      (\<exists>m'. remove_spend (run (create tip sz) cs) x = Inr m' \<and>
            7 \<notin> fst ` set (sorted_spends m')))"
proof (intro conjI impI)
  assume "obeys contract (create tip sz) cs"
  then show "no_empty_buckets (run (create tip sz) cs)"
    by (intro fee_index_ok_no_empty_buckets reachable_fee_index_ok)
next
  assume h: "obeys conflict_free_contract (create tip sz) cs \<and>
    spends (run (create tip sz) cs) = [(name x, x)] \<and> fee_per_cost x = 7"
  then have "obeys conflict_free_contract (create tip sz) cs" by simp
  note ok = reachable_indices_ok[OF this]
  from remove_last_entry[OF ok] h
  obtain m' where "remove_spend (run (create tip sz) cs) x = Inr m'" "sorted_spends m' = []"
    by blast
  then show "\<exists>m'. remove_spend (run (create tip sz) cs) x = Inr m' \<and>
            7 \<notin> fst ` set (sorted_spends m')"
    by simp
qed

theorem no_empty_buckets_reachable_witness:
  "obeys contract (create 0 2)
     [Admit entry_X [Coin 20] [(10, Coin 10)], Admit entry_Y [] [(11, Coin 11)], Remove entry_X] \<and>
   no_empty_buckets (run (create 0 2)
     [Admit entry_X [Coin 20] [(10, Coin 10)], Admit entry_Y [] [(11, Coin 11)], Remove entry_X]) \<and>
   obeys conflict_free_contract (create 0 2) [Admit entry_S [Coin 41] [(40, Coin 40)]] \<and>
   spends (run (create 0 2) [Admit entry_S [Coin 41] [(40, Coin 40)]]) = [(name entry_S, entry_S)] \<and>
   fee_per_cost entry_S = 7 \<and>
   (\<exists>m'. remove_spend (run (create 0 2) [Admit entry_S [Coin 41] [(40, Coin 40)]]) entry_S = Inr m' \<and>
         7 \<notin> fst ` set (sorted_spends m'))"
proof -
  have 1: "obeys contract (create 0 2)
     [Admit entry_X [Coin 20] [(10, Coin 10)], Admit entry_Y [] [(11, Coin 11)], Remove entry_X]"
    by (simp add: pool_eval entry_defs)
  have 2: "obeys conflict_free_contract (create 0 2) [Admit entry_S [Coin 41] [(40, Coin 40)]]"
    by (simp add: pool_eval entry_defs)
  have 3: "spends (run (create 0 2) [Admit entry_S [Coin 41] [(40, Coin 40)]]) =
      [(name entry_S, entry_S)]"
    by (simp add: pool_eval entry_defs)
  have 4: "fee_per_cost entry_S = 7" by (simp add: entry_defs)
  from no_empty_buckets_reachable[of 0 2
      "[Admit entry_X [Coin 20] [(10, Coin 10)], Admit entry_Y [] [(11, Coin 11)], Remove entry_X]"
      entry_S]
    no_empty_buckets_reachable[of 0 2 "[Admit entry_S [Coin 41] [(40, Coin 40)]]" entry_S]
    1 2 3 4
  show ?thesis by blast
qed

text \<open>
  C3, threshold correctness. As the claim states it, \<^verbatim>\<open>get_min_fee_rate\<close> returns the least
  fee rate of the admitted entries whenever their number equals the capacity. With
  capacity 0 the empty pool has as many entries as its capacity, and the call raises
  \<^verbatim>\<open>IndexError\<close> instead of returning.
\<close>

theorem min_fee_rate_capacity_zero:
  "int (length (spends (create 0 0))) = pool_size (create 0 0) \<and>
   get_min_fee_rate (create 0 0) = Inl IndexError"
  by (simp add: pool_eval)

text \<open>
  C3 as amended. On every pool reached from an empty pool by calls that meet \<open>contract\<close>,
  \<^verbatim>\<open>get_min_fee_rate\<close> returns 0 when \<open>spends\<close> holds fewer entries than the capacity,
  and returns the least \<open>fee_per_cost\<close> of the entries of \<open>spends\<close> when their number
  equals the capacity and is not zero. The method has no assignment and no deletion: it is
  a function of the pool, which it leaves as it is.
\<close>

theorem min_fee_rate_threshold:
  assumes "obeys contract (create tip sz) cs" and "m = run (create tip sz) cs"
  shows "(int (length (spends m)) < pool_size m \<longrightarrow> get_min_fee_rate m = Inr 0) \<and>
         (int (length (spends m)) = pool_size m \<and> spends m \<noteq> [] \<longrightarrow>
            get_min_fee_rate m = Inr (Min (fee_per_cost ` snd ` set (spends m))))"
proof (intro conjI impI)
  assume "int (length (spends m)) < pool_size m"
  then show "get_min_fee_rate m = Inr 0"
    by (simp add: get_min_fee_rate_def at_full_capacity_def)
next
  assume h: "int (length (spends m)) = pool_size m \<and> spends m \<noteq> []"
  have ok: "fee_index_ok m" unfolding assms(2) by (rule reachable_fee_index_ok[OF assms(1)])
  have full: "at_full_capacity m" using h by (simp add: at_full_capacity_def)
  have ne: "sorted_spends m \<noteq> []" using spends_nonempty_bucket[OF ok] h by simp
  then obtain f b sd where sh: "sorted_spends m = (f, b) # sd"
    by (cases "sorted_spends m") auto
  have r: "get_min_fee_rate m = Inr f"
    using full by (simp add: get_min_fee_rate_def peekitem0_def sh)
  have "b \<noteq> []" by (rule head_bucket_nonempty[OF ok sh])
  then obtain k v b' where b: "b = (k, v) # b'" by (cases b) auto
  have v: "map_of (spends m) (name v) = Some v" "fee_per_cost v = f"
    using victim_admitted[OF ok sh[unfolded b]] by simp_all
  have "(name v, v) \<in> set (spends m)" using v(1) by (rule map_of_SomeD)
  then have "v \<in> snd ` set (spends m)" by force
  then have mem: "f \<in> fee_per_cost ` snd ` set (spends m)" using v(2) by blast
  have ds: "distinct (map fst (spends m))" using ok unfolding fee_index_ok_def by blast
  have least: "f \<le> y" if y: "y \<in> fee_per_cost ` snd ` set (spends m)" for y
  proof -
    obtain k i where ki: "(k, i) \<in> set (spends m)" "y = fee_per_cost i" using y by auto
    then have "map_of (spends m) k = Some i" using ds by simp
    from first_key_least[OF ok sh this] ki(2) show ?thesis by simp
  qed
  have "Min (fee_per_cost ` snd ` set (spends m)) = f"
    by (rule Min_eqI) (use mem least in auto)
  then show "get_min_fee_rate m = Inr (Min (fee_per_cost ` snd ` set (spends m)))"
    using r by simp
qed

theorem min_fee_rate_threshold_witness:
  "obeys contract (create 0 2) [Admit entry_X [Coin 20] [(10, Coin 10)]] \<and>
   int (length (spends (run (create 0 2) [Admit entry_X [Coin 20] [(10, Coin 10)]]))) <
     pool_size (run (create 0 2) [Admit entry_X [Coin 20] [(10, Coin 10)]]) \<and>
   get_min_fee_rate (run (create 0 2) [Admit entry_X [Coin 20] [(10, Coin 10)]]) = Inr 0 \<and>
   obeys contract (create 0 2)
     [Admit entry_X [Coin 20] [(10, Coin 10)], Admit entry_Y [] [(11, Coin 11)]] \<and>
   int (length (spends (run (create 0 2)
     [Admit entry_X [Coin 20] [(10, Coin 10)], Admit entry_Y [] [(11, Coin 11)]]))) =
     pool_size (run (create 0 2)
       [Admit entry_X [Coin 20] [(10, Coin 10)], Admit entry_Y [] [(11, Coin 11)]]) \<and>
   spends (run (create 0 2)
     [Admit entry_X [Coin 20] [(10, Coin 10)], Admit entry_Y [] [(11, Coin 11)]]) \<noteq> [] \<and>
   get_min_fee_rate (run (create 0 2)
     [Admit entry_X [Coin 20] [(10, Coin 10)], Admit entry_Y [] [(11, Coin 11)]]) =
     Inr (Min (fee_per_cost ` snd ` set (spends (run (create 0 2)
       [Admit entry_X [Coin 20] [(10, Coin 10)], Admit entry_Y [] [(11, Coin 11)]]))))"
proof -
  let ?a = "[Admit entry_X [Coin 20] [(10, Coin 10)]]"
  let ?b = "[Admit entry_X [Coin 20] [(10, Coin 10)], Admit entry_Y [] [(11, Coin 11)]]"
  have 1: "obeys contract (create 0 2) ?a" by (simp add: pool_eval entry_defs)
  have 2: "int (length (spends (run (create 0 2) ?a))) < pool_size (run (create 0 2) ?a)"
    by (simp add: pool_eval entry_defs)
  have 3: "obeys contract (create 0 2) ?b" by (simp add: pool_eval entry_defs)
  have 4: "int (length (spends (run (create 0 2) ?b))) = pool_size (run (create 0 2) ?b)"
    by (simp add: pool_eval entry_defs)
  have 5: "spends (run (create 0 2) ?b) \<noteq> []" by (simp add: pool_eval entry_defs)
  from min_fee_rate_threshold[OF 1 refl] min_fee_rate_threshold[OF 3 refl] 1 2 3 4 5
  show ?thesis by blast
qed

text \<open>
  C4, eviction selects the minimum and evicts exactly one. As the claim states it, on
  every full pool of capacity at least 1 the call removes one stored entry and inserts the
  new one. A pool that earlier calls, each meeting \<open>contract\<close>, left with a stored entry
  whose coin is no key of \<open>removals\<close> is such a pool, and there the eviction raises
  \<^verbatim>\<open>KeyError\<close> at its first deletion: nothing is evicted and nothing is inserted.
\<close>

theorem eviction_conflict_counterexample:
  "obeys contract (create 0 2)
     [Admit entry_P [] [(30, Coin 30)], Admit entry_Q [] [(30, Coin 30)], Remove entry_P,
      Admit entry_X [Coin 20] [(10, Coin 10)]] \<and>
   at_full_capacity (run (create 0 2)
     [Admit entry_P [] [(30, Coin 30)], Admit entry_Q [] [(30, Coin 30)], Remove entry_P,
      Admit entry_X [Coin 20] [(10, Coin 10)]]) \<and>
   1 \<le> pool_size (run (create 0 2)
     [Admit entry_P [] [(30, Coin 30)], Admit entry_Q [] [(30, Coin 30)], Remove entry_P,
      Admit entry_X [Coin 20] [(10, Coin 10)]]) \<and>
   name entry_Z \<notin> fst ` set (spends (run (create 0 2)
     [Admit entry_P [] [(30, Coin 30)], Admit entry_Q [] [(30, Coin 30)], Remove entry_P,
      Admit entry_X [Coin 20] [(10, Coin 10)]])) \<and>
   add_to_pool (run (create 0 2)
     [Admit entry_P [] [(30, Coin 30)], Admit entry_Q [] [(30, Coin 30)], Remove entry_P,
      Admit entry_X [Coin 20] [(10, Coin 10)]]) entry_Z [] [(12, Coin 12)] =
     Inl (KeyError, run (create 0 2)
       [Admit entry_P [] [(30, Coin 30)], Admit entry_Q [] [(30, Coin 30)], Remove entry_P,
        Admit entry_X [Coin 20] [(10, Coin 10)]])"
  by (simp add: pool_eval entry_defs)

text \<open>
  C4 as amended. The pool \<open>m\<close> is any pool reached from an empty pool by conflict-free
  calls, it is full and its capacity is at least 1. Then \<^verbatim>\<open>add_to_pool\<close> returns for
  every entry and every coin arguments. One stored entry, the victim, whose fee rate is
  at most that of every stored entry, is gone from all four dictionaries: from \<open>spends\<close>,
  from its bucket, and its coins from \<open>removals\<close> and \<open>additions\<close>. The new entry is
  stored under its id in \<open>spends\<close> and in the bucket of its fee rate, and the coins passed
  map to it. Every other id, bucket member and coin is mapped as before. When the id is
  new, \<open>spends\<close> holds as many entries as before.
\<close>

theorem eviction_minimum:
  assumes "obeys conflict_free_contract (create tip sz) cs" and "m = run (create tip sz) cs"
      and "at_full_capacity m" and "1 \<le> pool_size m"
  shows "\<exists>victim m'. add_to_pool m it a rd = Inr m' \<and>
           map_of (spends m) (name victim) = Some victim \<and>
           (\<forall>(k, i) \<in> set (spends m). fee_per_cost victim \<le> fee_per_cost i) \<and>
           map_of (spends m') = ((map_of (spends m))(name victim := None))(name it \<mapsto> it) \<and>
           (\<forall>f k. bucket_entry m' f k =
              (if f = fee_per_cost it \<and> k = name it then Some it
               else if f = fee_per_cost victim \<and> k = name victim then None
               else bucket_entry m f k)) \<and>
           (\<forall>c. map_of (removals m') c =
              (if c \<in> set (map fst rd) then Some it
               else if c \<in> coin_name ` set (bundle_removals victim) then None
               else map_of (removals m) c)) \<and>
           (\<forall>c. map_of (additions m') c =
              (if c \<in> set (map coin_name a) then Some it
               else if c \<in> coin_name ` set (bundle_additions victim) then None
               else map_of (additions m) c)) \<and>
           (name it \<notin> fst ` set (spends m) \<longrightarrow> length (spends m') = length (spends m))"
proof -
  have fok: "fee_index_ok m" and cok: "coin_index_ok m"
    unfolding assms(2) by (rule reachable_indices_ok[OF assms(1)])+
  have "spends m \<noteq> []" using assms(3,4) by (auto simp: at_full_capacity_def)
  then have ne: "sorted_spends m \<noteq> []" by (rule spends_nonempty_bucket[OF fok])
  obtain f k v b sd m1 where sh: "sorted_spends m = (f, (k, v) # b) # sd"
    and r: "remove_spend m v = Inr m1"
    and eq: "add_to_pool m it a rd = Inr (insert_item m1 it a rd)"
    by (rule add_to_pool_full[OF fok cok assms(3) ne])
  note v = victim_admitted[OF fok sh]
  note D = remove_spend_Inr_D[OF r]
  let ?m' = "insert_item m1 it a rd"
  have ds: "distinct (map fst (spends m))" using fok unfolding fee_index_ok_def by blast
  have least: "\<forall>(k, i) \<in> set (spends m). fee_per_cost v \<le> fee_per_cost i"
  proof (clarify)
    fix k i assume "(k, i) \<in> set (spends m)"
    then have "map_of (spends m) k = Some i" using ds by simp
    from first_key_least[OF fok sh this] show "fee_per_cost v \<le> fee_per_cost i"
      by (simp add: v(2))
  qed
  have sp: "spends ?m' = dict_set (name it) it (AList.delete (name v) (spends m))"
    by (simp add: insert_item_simps D(7))
  have mp: "map_of (spends ?m') = ((map_of (spends m))(name v := None))(name it \<mapsto> it)"
    by (simp add: sp map_of_dict_set delete_conv')
  have be: "\<forall>f k. bucket_entry ?m' f k =
              (if f = fee_per_cost it \<and> k = name it then Some it
               else if f = fee_per_cost v \<and> k = name v then None
               else bucket_entry m f k)"
    by (simp add: bucket_entry_insert_item bucket_entry_remove_spend[OF r])
  have rm1: "map_of (removals m1) c =
      (if c \<notin> coin_name ` set (bundle_removals v) then map_of (removals m) c else None)" for c
    unfolding D(5) by (rule map_of_filter_keys)
  have ad1: "map_of (additions m1) c =
      (if c \<notin> coin_name ` set (bundle_additions v) then map_of (additions m) c else None)" for c
    unfolding D(6) by (rule map_of_filter_keys)
  have rm: "\<forall>c. map_of (removals ?m') c =
              (if c \<in> set (map fst rd) then Some it
               else if c \<in> coin_name ` set (bundle_removals v) then None
               else map_of (removals m) c)"
    by (simp add: insert_item_simps map_of_set_each rm1)
  have ad: "\<forall>c. map_of (additions ?m') c =
              (if c \<in> set (map coin_name a) then Some it
               else if c \<in> coin_name ` set (bundle_additions v) then None
               else map_of (additions m) c)"
    by (simp add: insert_item_simps map_of_set_each ad1)
  have len: "name it \<notin> fst ` set (spends m) \<longrightarrow> length (spends ?m') = length (spends m)"
  proof
    assume new: "name it \<notin> fst ` set (spends m)"
    have "name it \<notin> fst ` set (AList.delete (name v) (spends m))"
      using new dom_delete_subset[of "name v" "spends m"] by blast
    then have "length (spends ?m') = Suc (length (AList.delete (name v) (spends m)))"
      by (simp add: sp length_dict_set_key)
    then show "length (spends ?m') = length (spends m)"
      using length_delete_distinct[OF ds D(1)] by simp
  qed
  show ?thesis
    by (rule exI[of _ v], rule exI[of _ ?m']) (intro conjI eq v(1) least mp be rm ad len)
qed

theorem eviction_minimum_witness:
  "obeys conflict_free_contract (create 0 2)
     [Admit entry_X [Coin 20] [(10, Coin 10)], Admit entry_Y [] [(11, Coin 11)]] \<and>
   at_full_capacity (run (create 0 2)
     [Admit entry_X [Coin 20] [(10, Coin 10)], Admit entry_Y [] [(11, Coin 11)]]) \<and>
   1 \<le> pool_size (run (create 0 2)
     [Admit entry_X [Coin 20] [(10, Coin 10)], Admit entry_Y [] [(11, Coin 11)]]) \<and>
   (\<exists>victim m'.
      add_to_pool (run (create 0 2)
        [Admit entry_X [Coin 20] [(10, Coin 10)], Admit entry_Y [] [(11, Coin 11)]])
        entry_Z [] [(12, Coin 12)] = Inr m' \<and>
      map_of (spends (run (create 0 2)
        [Admit entry_X [Coin 20] [(10, Coin 10)], Admit entry_Y [] [(11, Coin 11)]]))
        (name victim) = Some victim \<and>
      map_of (spends m') (name entry_Z) = Some entry_Z \<and>
      bucket_entry m' (fee_per_cost entry_Z) (name entry_Z) = Some entry_Z \<and>
      map_of (removals m') 12 = Some entry_Z)"
proof -
  let ?cs = "[Admit entry_X [Coin 20] [(10, Coin 10)], Admit entry_Y [] [(11, Coin 11)]]"
  have 1: "obeys conflict_free_contract (create 0 2) ?cs" by (simp add: pool_eval entry_defs)
  have 2: "at_full_capacity (run (create 0 2) ?cs)" by (simp add: pool_eval entry_defs)
  have 3: "1 \<le> pool_size (run (create 0 2) ?cs)" by (simp add: pool_eval entry_defs)
  from eviction_minimum[OF 1 refl 2 3, of entry_Z "[]" "[(12, Coin 12)]"]
  obtain victim m' where h:
    "add_to_pool (run (create 0 2) ?cs) entry_Z [] [(12, Coin 12)] = Inr m'"
    "map_of (spends (run (create 0 2) ?cs)) (name victim) = Some victim"
    "map_of (spends m') =
       ((map_of (spends (run (create 0 2) ?cs)))(name victim := None))(name entry_Z \<mapsto> entry_Z)"
    "\<forall>f k. bucket_entry m' f k =
              (if f = fee_per_cost entry_Z \<and> k = name entry_Z then Some entry_Z
               else if f = fee_per_cost victim \<and> k = name victim then None
               else bucket_entry (run (create 0 2) ?cs) f k)"
    "\<forall>c. map_of (removals m') c =
              (if c \<in> set (map fst [(12::bytes32, Coin 12)]) then Some entry_Z
               else if c \<in> coin_name ` set (bundle_removals victim) then None
               else map_of (removals (run (create 0 2) ?cs)) c)"
    by blast
  have a: "map_of (spends m') (name entry_Z) = Some entry_Z" by (simp add: h(3))
  have b: "bucket_entry m' (fee_per_cost entry_Z) (name entry_Z) = Some entry_Z"
    by (simp add: h(4))
  have c: "map_of (removals m') 12 = Some entry_Z" by (simp add: h(5))
  have "\<exists>victim m'.
      add_to_pool (run (create 0 2) ?cs) entry_Z [] [(12, Coin 12)] = Inr m' \<and>
      map_of (spends (run (create 0 2) ?cs)) (name victim) = Some victim \<and>
      map_of (spends m') (name entry_Z) = Some entry_Z \<and>
      bucket_entry m' (fee_per_cost entry_Z) (name entry_Z) = Some entry_Z \<and>
      map_of (removals m') 12 = Some entry_Z"
    by (rule exI[of _ victim], rule exI[of _ m']) (intro conjI h(1) h(2) a b c)
  with 1 2 3 show ?thesis by blast
qed

text \<open>
  C5, capacity zero. As the claim states it, \<^verbatim>\<open>add_to_pool\<close> on a pool of capacity 0
  completes and the inserted entry is evicted at once. The first call on the empty pool
  raises \<^verbatim>\<open>IndexError\<close> instead: the pool counts as full, and \<^verbatim>\<open>peekitem(index=0)\<close> finds
  no bucket.
\<close>

theorem capacity_zero_counterexample:
  "add_to_pool (create 0 0) entry_X [Coin 20] [(10, Coin 10)] = Inl (IndexError, create 0 0)"
  by (simp add: pool_eval)

text \<open>
  C5 as amended. On the empty pool of capacity 0, \<^verbatim>\<open>add_to_pool\<close> raises
  \<^verbatim>\<open>IndexError\<close> for every entry and leaves the pool as created; whatever calls are made,
  \<open>spends\<close> stays empty.
\<close>

theorem capacity_zero_admit_raises:
  "add_to_pool (create tip 0) it a rd = Inl (IndexError, create tip 0) \<and>
   spends (run (create tip 0) cs) = []"
proof
  show "add_to_pool (create tip 0) it a rd = Inl (IndexError, create tip 0)"
    by (simp add: pool_eval)
  show "spends (run (create tip 0) cs) = []"
    by (rule empty_zero_run) (simp_all add: create_def)
qed




text \<open>
  C7, \<^verbatim>\<open>remove_spend\<close> is complete and preserves the rest. As the claim states it, the
  entry is stored in \<open>spends\<close> with its fee rate and coins and no other stored entry has
  one of its coins. That does not make its coins keys of \<open>removals\<close>: after \<open>entry_P\<close> and
  \<open>entry_T\<close>, which spend the same coin, are admitted and \<open>entry_P\<close> is removed, \<open>entry_T\<close>
  is the only stored entry, and \<^verbatim>\<open>remove_spend(entry_T)\<close> raises \<^verbatim>\<open>KeyError\<close> and leaves
  it stored.
\<close>

theorem remove_spend_conflict_counterexample:
  "obeys contract (create 0 2)
     [Admit entry_P [] [(30, Coin 30)], Admit entry_T [] [(30, Coin 30)], Remove entry_P] \<and>
   spends (run (create 0 2)
     [Admit entry_P [] [(30, Coin 30)], Admit entry_T [] [(30, Coin 30)], Remove entry_P]) =
     [(name entry_T, entry_T)] \<and>
   sorted_spends (run (create 0 2)
     [Admit entry_P [] [(30, Coin 30)], Admit entry_T [] [(30, Coin 30)], Remove entry_P]) =
     [(fee_per_cost entry_T, [(name entry_T, entry_T)])] \<and>
   remove_spend (run (create 0 2)
     [Admit entry_P [] [(30, Coin 30)], Admit entry_T [] [(30, Coin 30)], Remove entry_P])
     entry_T =
     Inl (KeyError, run (create 0 2)
       [Admit entry_P [] [(30, Coin 30)], Admit entry_T [] [(30, Coin 30)], Remove entry_P])"
  by (simp add: pool_eval entry_defs)

text \<open>
  C7 as amended. The entry \<open>e\<close> is stored in \<open>spends\<close> under its id and in the bucket \<open>b\<close>
  of its fee rate, its coin lists hold no coin twice, each of its coins is a key of
  \<open>removals\<close>, respectively \<open>additions\<close>, and no other stored entry has one of its coins.
  Then \<^verbatim>\<open>remove_spend(e)\<close> returns; the id is gone from \<open>spends\<close> and from the bucket, the
  bucket's key is gone when nothing else was in it, the coins of \<open>e\<close> are gone from
  \<open>removals\<close> and \<open>additions\<close>, and every other id, bucket, bucket member and coin is
  mapped as before, as are the coins of every other stored entry.
\<close>

theorem remove_spend_complete:
  assumes adm: "map_of (spends m) (name e) = Some e"
      and bucket: "map_of (sorted_spends m) (fee_per_cost e) = Some b"
      and inb: "map_of b (name e) = Some e"
      and dr: "distinct (map coin_name (bundle_removals e))"
      and da: "distinct (map coin_name (bundle_additions e))"
      and rem: "\<forall>c \<in> set (bundle_removals e). coin_name c \<in> fst ` set (removals m)"
      and add: "\<forall>c \<in> set (bundle_additions e). coin_name c \<in> fst ` set (additions m)"
      and others: "\<forall>(k, e') \<in> set (spends m). k \<noteq> name e \<longrightarrow>
            coin_name ` set (bundle_removals e') \<inter> coin_name ` set (bundle_removals e) = {} \<and>
            coin_name ` set (bundle_additions e') \<inter> coin_name ` set (bundle_additions e) = {}"
  shows "\<exists>m'. remove_spend m e = Inr m' \<and>
      map_of (spends m') = (map_of (spends m))(name e := None) \<and>
      map_of (sorted_spends m') =
        (if AList.delete (name e) b = []
         then (map_of (sorted_spends m))(fee_per_cost e := None)
         else (map_of (sorted_spends m))(fee_per_cost e \<mapsto> AList.delete (name e) b)) \<and>
      map_of (AList.delete (name e) b) = (map_of b)(name e := None) \<and>
      (\<forall>c. map_of (removals m') c =
         (if c \<in> coin_name ` set (bundle_removals e) then None else map_of (removals m) c)) \<and>
      (\<forall>c. map_of (additions m') c =
         (if c \<in> coin_name ` set (bundle_additions e) then None else map_of (additions m) c)) \<and>
      (\<forall>(k, e') \<in> set (spends m). k \<noteq> name e \<longrightarrow>
         (\<forall>c \<in> set (bundle_removals e').
            map_of (removals m') (coin_name c) = map_of (removals m) (coin_name c)) \<and>
         (\<forall>c \<in> set (bundle_additions e').
            map_of (additions m') (coin_name c) = map_of (additions m) (coin_name c))) \<and>
      header m' = header m \<and> pool_size m' = pool_size m \<and> min_fee m' = min_fee m"
proof -
  have r: "coin_name ` set (bundle_removals e) \<subseteq> fst ` set (removals m)"
  proof
    fix x assume "x \<in> coin_name ` set (bundle_removals e)"
    then obtain c where c: "c \<in> set (bundle_removals e)" "x = coin_name c" by (elim imageE)
    from rem c(1) show "x \<in> fst ` set (removals m)" unfolding c(2) by (rule bspec)
  qed
  have a: "coin_name ` set (bundle_additions e) \<subseteq> fst ` set (additions m)"
  proof
    fix x assume "x \<in> coin_name ` set (bundle_additions e)"
    then obtain c where c: "c \<in> set (bundle_additions e)" "x = coin_name c" by (elim imageE)
    from add c(1) show "x \<in> fst ` set (additions m)" unfolding c(2) by (rule bspec)
  qed
  have n: "name e \<in> fst ` set (spends m)" using adm by (rule map_of_Some_key)
  have nb: "name e \<in> fst ` set b" using inb by (rule map_of_Some_key)
  obtain m' where ret: "remove_spend m e = Inr m'"
    using remove_spend_returns[OF dr r da a n bucket nb] by blast
  note D = remove_spend_Inr_D[OF ret]
  have ss: "sorted_spends m' =
      (if AList.delete (name e) b = [] then AList.delete (fee_per_cost e) (sorted_spends m)
       else AList.update (fee_per_cost e) (AList.delete (name e) b) (sorted_spends m))"
  proof -
    obtain b' where b': "map_of (sorted_spends m) (fee_per_cost e) = Some b'"
      and eq: "sorted_spends m' =
        (if AList.delete (name e) b' = [] then AList.delete (fee_per_cost e) (sorted_spends m)
         else AList.update (fee_per_cost e) (AList.delete (name e) b') (sorted_spends m))"
      using D(8) by blast
    have "b' = b" using b' bucket by simp
    then show ?thesis using eq by simp
  qed
  have 1: "map_of (spends m') = (map_of (spends m))(name e := None)"
    by (simp add: D(7) delete_conv')
  have 2: "map_of (sorted_spends m') =
        (if AList.delete (name e) b = []
         then (map_of (sorted_spends m))(fee_per_cost e := None)
         else (map_of (sorted_spends m))(fee_per_cost e \<mapsto> AList.delete (name e) b))"
    by (simp add: ss delete_conv' update_conv')
  have 3: "map_of (AList.delete (name e) b) = (map_of b)(name e := None)"
    by (rule delete_conv')
  have 4: "map_of (removals m') c =
         (if c \<in> coin_name ` set (bundle_removals e) then None else map_of (removals m) c)" for c
  proof -
    have "map_of (removals m') c =
        (if c \<notin> coin_name ` set (bundle_removals e) then map_of (removals m) c else None)"
      unfolding D(5) by (rule map_of_filter_keys)
    then show ?thesis by simp
  qed
  have 5: "map_of (additions m') c =
         (if c \<in> coin_name ` set (bundle_additions e) then None else map_of (additions m) c)" for c
  proof -
    have "map_of (additions m') c =
        (if c \<notin> coin_name ` set (bundle_additions e) then map_of (additions m) c else None)"
      unfolding D(6) by (rule map_of_filter_keys)
    then show ?thesis by simp
  qed
  have 6: "\<forall>(k, e') \<in> set (spends m). k \<noteq> name e \<longrightarrow>
         (\<forall>c \<in> set (bundle_removals e').
            map_of (removals m') (coin_name c) = map_of (removals m) (coin_name c)) \<and>
         (\<forall>c \<in> set (bundle_additions e').
            map_of (additions m') (coin_name c) = map_of (additions m) (coin_name c))"
  proof (intro ballI)
    fix p assume p: "p \<in> set (spends m)"
    obtain k e' where ke: "p = (k, e')" by (cases p)
    have "(\<forall>c \<in> set (bundle_removals e').
            map_of (removals m') (coin_name c) = map_of (removals m) (coin_name c)) \<and>
         (\<forall>c \<in> set (bundle_additions e').
            map_of (additions m') (coin_name c) = map_of (additions m) (coin_name c))"
      if k: "k \<noteq> name e"
    proof -
      from others p have "case p of (k, e') \<Rightarrow> k \<noteq> name e \<longrightarrow>
            coin_name ` set (bundle_removals e') \<inter> coin_name ` set (bundle_removals e) = {} \<and>
            coin_name ` set (bundle_additions e') \<inter> coin_name ` set (bundle_additions e) = {}"
        by (rule bspec)
      then have dis:
          "coin_name ` set (bundle_removals e') \<inter> coin_name ` set (bundle_removals e) = {}"
          "coin_name ` set (bundle_additions e') \<inter> coin_name ` set (bundle_additions e) = {}"
        using k by (simp_all add: ke)
      have "coin_name c \<notin> coin_name ` set (bundle_removals e)"
        if "c \<in> set (bundle_removals e')" for c
        using dis(1) that by blast
      moreover have "coin_name c \<notin> coin_name ` set (bundle_additions e)"
        if "c \<in> set (bundle_additions e')" for c
        using dis(2) that by blast
      ultimately show ?thesis by (simp add: 4 5)
    qed
    then show "case p of (k, e') \<Rightarrow> k \<noteq> name e \<longrightarrow>
         (\<forall>c \<in> set (bundle_removals e').
            map_of (removals m') (coin_name c) = map_of (removals m) (coin_name c)) \<and>
         (\<forall>c \<in> set (bundle_additions e').
            map_of (additions m') (coin_name c) = map_of (additions m) (coin_name c))"
      by (simp add: ke)
  qed
  have 45: "(\<forall>c. map_of (removals m') c =
         (if c \<in> coin_name ` set (bundle_removals e) then None else map_of (removals m) c)) \<and>
      (\<forall>c. map_of (additions m') c =
         (if c \<in> coin_name ` set (bundle_additions e) then None else map_of (additions m) c))"
    using 4 5 by simp
  show ?thesis
    by (rule exI[of _ m']) (intro conjI ret 1 2 3 45[THEN conjunct1] 45[THEN conjunct2] 6 D(2,3,4))
qed


theorem remove_spend_complete_witness:
  "map_of (spends (run (create 0 2)
     [Admit entry_X [Coin 20] [(10, Coin 10)], Admit entry_Y [] [(11, Coin 11)]]))
     (name entry_X) = Some entry_X \<and>
   map_of (sorted_spends (run (create 0 2)
     [Admit entry_X [Coin 20] [(10, Coin 10)], Admit entry_Y [] [(11, Coin 11)]]))
     (fee_per_cost entry_X) = Some [(1, entry_X)] \<and>
   (\<exists>m'. remove_spend (run (create 0 2)
       [Admit entry_X [Coin 20] [(10, Coin 10)], Admit entry_Y [] [(11, Coin 11)]]) entry_X =
       Inr m' \<and>
     map_of (spends m') = (map_of (spends (run (create 0 2)
       [Admit entry_X [Coin 20] [(10, Coin 10)], Admit entry_Y [] [(11, Coin 11)]])))
       (name entry_X := None))"
proof -
  let ?m = "run (create 0 2)
     [Admit entry_X [Coin 20] [(10, Coin 10)], Admit entry_Y [] [(11, Coin 11)]]"
  have m: "?m = \<lparr>header = 0, spends = [(1, entry_X), (2, entry_Y)],
      sorted_spends = [(3, [(2, entry_Y)]), (5, [(1, entry_X)])],
      additions = [(20, entry_X)], removals = [(10, entry_X), (11, entry_Y)],
      min_fee = 0, pool_size = 2\<rparr>"
    by (simp add: pool_eval entry_defs)
  have 1: "map_of (spends ?m) (name entry_X) = Some entry_X" unfolding m by (simp add: entry_defs)
  have 2: "map_of (sorted_spends ?m) (fee_per_cost entry_X) = Some [(1, entry_X)]"
    unfolding m by (simp add: entry_defs)
  have 3: "map_of [(1, entry_X)] (name entry_X) = Some entry_X" by (simp add: entry_defs)
  have 4: "distinct (map coin_name (bundle_removals entry_X))" by (simp add: entry_defs)
  have 5: "distinct (map coin_name (bundle_additions entry_X))" by (simp add: entry_defs)
  have 6: "\<forall>c \<in> set (bundle_removals entry_X). coin_name c \<in> fst ` set (removals ?m)"
    unfolding m by (simp add: entry_defs)
  have 7: "\<forall>c \<in> set (bundle_additions entry_X). coin_name c \<in> fst ` set (additions ?m)"
    unfolding m by (simp add: entry_defs)
  have 8: "\<forall>(k, e') \<in> set (spends ?m). k \<noteq> name entry_X \<longrightarrow>
      coin_name ` set (bundle_removals e') \<inter> coin_name ` set (bundle_removals entry_X) = {} \<and>
      coin_name ` set (bundle_additions e') \<inter> coin_name ` set (bundle_additions entry_X) = {}"
    unfolding m by (simp add: entry_defs)
  from remove_spend_complete[OF 1 2 3 4 5 6 7 8] 1 2 show ?thesis by blast
qed

text \<open>
  C8, Scenario B. The pool has capacity 1; \<open>x\<close> and \<open>y\<close> are any two entries of fee rate 1,
  \<open>x\<close> admitted under the conflict-free contract. After the admission of \<open>x\<close> the pool is
  full and holds \<open>x\<close>; the admission of \<open>y\<close> returns, and the pool then holds \<open>y\<close> and
  nothing else in each of the four dictionaries.
\<close>

theorem tie_break_scenario:
  assumes c: "conflict_free_contract (create tip 1) (Admit x ax rx)"
      and fx: "fee_per_cost x = 1" and fy: "fee_per_cost y = 1"
  shows "\<exists>m1 m2. add_to_pool (create tip 1) x ax rx = Inr m1 \<and>
           at_full_capacity m1 \<and> spends m1 = [(name x, x)] \<and>
           add_to_pool m1 y ay ry = Inr m2 \<and>
           spends m2 = [(name y, y)] \<and> sorted_spends m2 = [(1, [(name y, y)])] \<and>
           removals m2 = set_each (map fst ry) y [] \<and>
           additions m2 = set_each (map coin_name ay) y []"
proof -
  let ?m0 = "create tip 1"
  let ?m1 = "insert_item ?m0 x ax rx"
  have new: "name x \<notin> fst ` set (spends ?m0)"
    and dr: "distinct (map coin_name (bundle_removals x))"
    and da: "distinct (map coin_name (bundle_additions x))"
    and ma: "set (map coin_name ax) = set (map coin_name (bundle_additions x))"
    and mr: "set (map fst rx) = set (map coin_name (bundle_removals x))"
    and fr: "\<forall>c \<in> set (bundle_removals x). coin_name c \<notin> fst ` set (removals ?m0)"
    and fa: "\<forall>c \<in> set (bundle_additions x). coin_name c \<notin> fst ` set (additions ?m0)"
    using c by simp_all
  have e1: "add_to_pool ?m0 x ax rx = Inr ?m1"
    by (rule add_to_pool_not_full) (simp add: create_def at_full_capacity_def)
  have sp1: "spends ?m1 = [(name x, x)]"
    by (simp add: insert_item_simps create_def dict_set_def)
  have ss1: "sorted_spends ?m1 = (1, (name x, x) # []) # []"
    by (simp add: insert_item_simps create_def dict_set_def fx)
  have full: "at_full_capacity ?m1"
    by (simp add: at_full_capacity_def insert_item_simps create_def dict_set_def)
  have fok: "fee_index_ok ?m1" by (rule fee_index_ok_insert_item[OF fee_index_ok_create new])
  have cok: "coin_index_ok ?m1"
    by (rule coin_index_ok_insert_item[OF coin_index_ok_create new dr da ma mr fr fa])
  obtain m' where r: "remove_spend ?m1 x = Inr m'" and sp': "spends m' = []"
    and ss': "sorted_spends m' = []"
    using remove_last_entry[OF fok cok sp1] by blast
  note D = remove_spend_Inr_D[OF r]
  have "fst ` set (removals ?m1) \<subseteq> coin_name ` set (bundle_removals x)"
    using mr by (simp add: insert_item_simps keys_set_each create_def)
  then have rm': "removals m' = []" unfolding D(5) by (rule filter_all_keys)
  have "fst ` set (additions ?m1) \<subseteq> coin_name ` set (bundle_additions x)"
    using ma by (simp add: insert_item_simps keys_set_each create_def)
  then have ad': "additions m' = []" unfolding D(6) by (rule filter_all_keys)
  let ?m2 = "insert_item m' y ay ry"
  have e2: "add_to_pool ?m1 y ay ry = Inr ?m2"
    by (simp add: add_to_pool_evict[OF full ss1] r)
  have 1: "spends ?m2 = [(name y, y)]" by (simp add: insert_item_simps sp' dict_set_def)
  have 2: "sorted_spends ?m2 = [(1, [(name y, y)])]"
    by (simp add: insert_item_simps ss' dict_set_def fy)
  have 3: "removals ?m2 = set_each (map fst ry) y []" by (simp add: insert_item_simps rm')
  have 4: "additions ?m2 = set_each (map coin_name ay) y []" by (simp add: insert_item_simps ad')
  show ?thesis
    by (rule exI[of _ ?m1], rule exI[of _ ?m2]) (intro conjI e1 full sp1 e2 1 2 3 4)
qed

theorem tie_break_scenario_witness:
  "conflict_free_contract (create 0 1) (Admit entry_P [] [(30, Coin 30)]) \<and>
   fee_per_cost entry_P = 1 \<and> fee_per_cost entry_Q = 1 \<and>
   (\<exists>m1 m2. add_to_pool (create 0 1) entry_P [] [(30, Coin 30)] = Inr m1 \<and>
      at_full_capacity m1 \<and>
      add_to_pool m1 entry_Q [] [(30, Coin 30)] = Inr m2 \<and>
      spends m2 = [(name entry_Q, entry_Q)])"
proof -
  have 1: "conflict_free_contract (create 0 1) (Admit entry_P [] [(30, Coin 30)])"
    by (simp add: pool_eval entry_defs)
  have 2: "fee_per_cost entry_P = 1" and 3: "fee_per_cost entry_Q = 1"
    by (simp_all add: entry_defs)
  from tie_break_scenario[OF 1 2 3, of "[]" "[(30, Coin 30)]"] 1 2 3 show ?thesis by blast
qed



end
